theory Spec2Isabelle
  imports Complex_Main
begin


section \<open>Strings, characters and exceptions\<close>

text \<open>
  A Python \<open>str\<close> is modelled as a \<open>string\<close> whose characters are the code points
  below 256 (the Latin-1 range). The character tests below are the tests of the
  Python library on that range: \<open>str.isdigit\<close> holds of the decimal digits and of the
  superscripts U+00B2, U+00B3 and U+00B9; \<open>int\<close> accepts the decimal digits only and
  raises \<open>ValueError\<close> on every other character; the classes \<open>[0-9]\<close> and \<open>\d\<close> of
  the \<open>re\<close> module are the decimal digits; \<open>\w\<close> is \<open>str.isalnum\<close> or the underscore.
  Floating-point numbers are idealised as rationals.
\<close>

datatype py_error = ValueError | ReError | KeyError | TypeError | AttributeError

definition ascii_digit :: "char \<Rightarrow> bool" where
  "ascii_digit c = (c \<in> set ''0123456789'')"

definition isdigit :: "char \<Rightarrow> bool" where
  "isdigit c = (ascii_digit c \<or> c \<in> {CHR 0xB2, CHR 0xB3, CHR 0xB9})"

definition int_of_char :: "char \<Rightarrow> py_error + int" where
  "int_of_char c = (if ascii_digit c then Inr (int (of_char c) - 48) else Inl ValueError)"

definition is_word :: "char \<Rightarrow> bool" where
  "is_word c = (let n = (of_char c :: nat) in
     (48 \<le> n \<and> n \<le> 57) \<or> (65 \<le> n \<and> n \<le> 90) \<or> n = 95 \<or> (97 \<le> n \<and> n \<le> 122)
     \<or> n = 170 \<or> n = 178 \<or> n = 179 \<or> n = 181 \<or> n = 185 \<or> n = 186
     \<or> (188 \<le> n \<and> n \<le> 190) \<or> (192 \<le> n \<and> n \<le> 214) \<or> (216 \<le> n \<and> n \<le> 246)
     \<or> 248 \<le> n)"

definition lower_char :: "char \<Rightarrow> char" where
  "lower_char c = (let n = (of_char c :: nat) in
     if (65 \<le> n \<and> n \<le> 90) \<or> (192 \<le> n \<and> n \<le> 222 \<and> n \<noteq> 215) then char_of (n + 32) else c)"

definition lower :: "string \<Rightarrow> string" where
  "lower s = map lower_char s"

text \<open>\<open>k in s\<close> on strings: \<open>k\<close> occurs in \<open>s\<close> as a contiguous substring.\<close>

fun contains_str :: "string \<Rightarrow> string \<Rightarrow> bool" where
  "contains_str [] k = (k = [])"
| "contains_str (c # cs) k = (take (length k) (c # cs) = k \<or> contains_str cs k)"

text \<open>
  The slice \<open>s[i:j]\<close> with step 1; \<open>None\<close> is an omitted bound, a negative bound counts
  from the end, and bounds are clamped to the string.
\<close>

definition slice_bound :: "nat \<Rightarrow> int \<Rightarrow> nat" where
  "slice_bound len i = (if i < 0 then nat (max 0 (int len + i)) else min (nat i) len)"

definition py_slice :: "'a list \<Rightarrow> int option \<Rightarrow> int option \<Rightarrow> 'a list" where
  "py_slice s i j =
     (let lo = (case i of None \<Rightarrow> 0 | Some i' \<Rightarrow> slice_bound (length s) i');
          hi = (case j of None \<Rightarrow> length s | Some j' \<Rightarrow> slice_bound (length s) j')
      in take (hi - lo) (drop lo s))"

text \<open>\<open>text.split('\n')\<close>: the lines of a text; the empty text has one empty line.\<close>

fun split_lines :: "string \<Rightarrow> string list" where
  "split_lines [] = [[]]"
| "split_lines (c # cs) =
     (if c = CHR 0x0A then [] # split_lines cs
      else (case split_lines cs of [] \<Rightarrow> [[c]] | l # ls \<Rightarrow> (c # l) # ls))"

text \<open>
  A loop whose body may raise: the results of the iterations in order, joined, or the
  first exception.
\<close>

fun collect :: "(py_error + 'a list) list \<Rightarrow> py_error + 'a list" where
  "collect [] = Inr []"
| "collect (x # xs) =
     (case x of Inl e \<Rightarrow> Inl e
      | Inr a \<Rightarrow> (case collect xs of Inl e \<Rightarrow> Inl e | Inr b \<Rightarrow> Inr (a @ b)))"

section \<open>Regular expressions of the \<open>re\<close> module\<close>

text \<open>
  The patterns of the program use character classes, concatenation, alternation, bounded
  repetition of a group, unbounded greedy repetition of a character class, and the word
  boundary \<open>\b\<close>. A matching state is the character before the current position (if any)
  and the rest of the input. \<open>ms r st\<close> lists the states in which a match of \<open>r\<close> from
  \<open>st\<close> can end, in the order in which the backtracking matcher of the library tries
  them: the first alternative first, the longest repetition first.
\<close>

datatype regex =
    Eps
  | Cls "char \<Rightarrow> bool"
  | Seq regex regex
  | Alt regex regex
  | Rep regex nat nat
  | Many "char \<Rightarrow> bool" nat
  | WordB

type_synonym mstate = "char option \<times> string"

definition boundary :: "mstate \<Rightarrow> bool" where
  "boundary st =
     ((case fst st of None \<Rightarrow> False | Some c \<Rightarrow> is_word c)
        \<noteq> (case snd st of [] \<Rightarrow> False | c # _ \<Rightarrow> is_word c))"

text \<open>The state after \<open>j\<close> more characters of the input have been consumed.\<close>

definition advance :: "nat \<Rightarrow> mstate \<Rightarrow> mstate" where
  "advance j st = (if j = 0 then st else (Some (snd st ! (j - 1)), drop j (snd st)))"

text \<open>\<open>r{n,m}\<close>, greedy: as many iterations as possible first, at least \<open>n\<close>, at most \<open>m\<close>.\<close>

fun rep_from :: "(mstate \<Rightarrow> mstate list) \<Rightarrow> nat \<Rightarrow> nat \<Rightarrow> mstate \<Rightarrow> mstate list" where
  "rep_from f n 0 st = (if n = 0 then [st] else [])"
| "rep_from f n (Suc m) st =
     concat (map (rep_from f (n - 1) m) (f st)) @ (if n = 0 then [st] else [])"

fun ms :: "regex \<Rightarrow> mstate \<Rightarrow> mstate list" where
  "ms Eps st = [st]"
| "ms (Cls P) st =
     (case snd st of [] \<Rightarrow> [] | c # cs \<Rightarrow> if P c then [(Some c, cs)] else [])"
| "ms (Seq r1 r2) st = concat (map (ms r2) (ms r1 st))"
| "ms (Alt r1 r2) st = ms r1 st @ ms r2 st"
| "ms (Rep r n m) st = rep_from (ms r) n m st"
| "ms (Many P n) st =
     map (\<lambda>j. advance j st) (rev [n..<Suc (length (takeWhile P (snd st)))])"
| "ms WordB st = (if boundary st then [st] else [])"

text \<open>
  The number of characters consumed by the match the library reports at a position: the
  first one in backtracking order.
\<close>

definition first_match :: "regex \<Rightarrow> mstate \<Rightarrow> nat option" where
  "first_match r st =
     (case ms r st of [] \<Rightarrow> None | st' # _ \<Rightarrow> Some (length (snd st) - length (snd st')))"

text \<open>
  \<open>pattern.finditer(s)\<close>: the spans \<open>(start, end)\<close> of the non-overlapping matches from
  left to right. No pattern of the program matches the empty string, so the rule of the
  library for empty matches is not modelled: a position with an empty match is passed
  like a position with none.
\<close>

function finditer_from :: "regex \<Rightarrow> nat \<Rightarrow> char option \<Rightarrow> string \<Rightarrow> (nat \<times> nat) list" where
  "finditer_from r pos p [] = []"
| "finditer_from r pos p (c # cs) =
     (case first_match r (p, c # cs) of
        None \<Rightarrow> finditer_from r (Suc pos) (Some c) cs
      | Some n \<Rightarrow>
          if n = 0 then finditer_from r (Suc pos) (Some c) cs
          else (pos, pos + n)
                 # finditer_from r (pos + n) (Some ((c # cs) ! (n - 1))) (drop n (c # cs)))"
  by pat_completeness auto
termination
  by (relation "measure (\<lambda>(r, pos, p, s). length s)") auto

definition finditer :: "regex \<Rightarrow> string \<Rightarrow> (nat \<times> nat) list" where
  "finditer r s = finditer_from r 0 None s"

definition span_text :: "string \<Rightarrow> nat \<times> nat \<Rightarrow> string" where
  "span_text s sp = take (snd sp - fst sp) (drop (fst sp) s)"

definition findall :: "regex \<Rightarrow> string \<Rightarrow> string list" where
  "findall r s = map (span_text s) (finditer r s)"

text \<open>\<open>regex.search(s)\<close> as a truth value: some position has a match.\<close>

fun search_from :: "regex \<Rightarrow> char option \<Rightarrow> string \<Rightarrow> bool" where
  "search_from r p [] = (ms r (p, []) \<noteq> [])"
| "search_from r p (c # cs) = (ms r (p, c # cs) \<noteq> [] \<or> search_from r (Some c) cs)"

definition search :: "regex \<Rightarrow> string \<Rightarrow> bool" where
  "search r s = search_from r None s"

text \<open>\<open>re.sub(pattern, repl, s)\<close> for a replacement text \<open>repl\<close> without group references.\<close>

function sub_from :: "regex \<Rightarrow> string \<Rightarrow> char option \<Rightarrow> string \<Rightarrow> string" where
  "sub_from r repl p [] = []"
| "sub_from r repl p (c # cs) =
     (case first_match r (p, c # cs) of
        None \<Rightarrow> c # sub_from r repl (Some c) cs
      | Some n \<Rightarrow>
          if n = 0 then c # sub_from r repl (Some c) cs
          else repl @ sub_from r repl (Some ((c # cs) ! (n - 1))) (drop n (c # cs)))"
  by pat_completeness auto
termination
  by (relation "measure (\<lambda>(r, repl, p, s). length s)") auto

definition re_sub :: "regex \<Rightarrow> string \<Rightarrow> string \<Rightarrow> string" where
  "re_sub r repl s = sub_from r repl None s"

text \<open>Pattern syntax: a literal character, a literal text, \<open>[0-9]\<close> and \<open>\d\<close>, \<open>r{n}\<close>, \<open>r?\<close>.\<close>

definition lit :: "char \<Rightarrow> regex" where
  "lit c = Cls (\<lambda>x. x = c)"

definition one_of :: "string \<Rightarrow> regex" where
  "one_of cs = Cls (\<lambda>x. x \<in> set cs)"

definition digit :: regex where
  "digit = Cls ascii_digit"

definition nondigit :: regex where
  "nondigit = Cls (\<lambda>c. \<not> ascii_digit c)"

fun text_rx :: "string \<Rightarrow> regex" where
  "text_rx [] = Eps"
| "text_rx (c # cs) = Seq (lit c) (text_rx cs)"

definition times :: "nat \<Rightarrow> regex \<Rightarrow> regex" where
  "times n r = Rep r n n"

definition opt :: "regex \<Rightarrow> regex" where
  "opt r = Rep r 0 1"

fun seqs :: "regex list \<Rightarrow> regex" where
  "seqs [] = Eps"
| "seqs [r] = r"
| "seqs (r # rs) = Seq r (seqs rs)"

section \<open>The detection engine (\<open>detection_engine.py\<close>)\<close>

datatype CardType = VISA | MASTERCARD | AMEX | DISCOVER | DINERS | JCB | UNKNOWN

fun card_type_value :: "CardType \<Rightarrow> string" where
  "card_type_value VISA = ''visa''"
| "card_type_value MASTERCARD = ''mastercard''"
| "card_type_value AMEX = ''amex''"
| "card_type_value DISCOVER = ''discover''"
| "card_type_value DINERS = ''diners''"
| "card_type_value JCB = ''jcb''"
| "card_type_value UNKNOWN = ''unknown''"

record PANMatch =
  file_path :: string
  line_number :: nat
  column_start :: nat
  column_end :: nat
  raw_match :: string
  masked_match :: string
  card_type :: CardType
  luhn_valid :: bool
  confidence_score :: rat
  context_before :: string
  context_after :: string
  is_masked :: bool

text \<open>
  The settings the detector and the report generator read from the configuration
  dictionary, after the defaults of \<open>config.get\<close> have been applied.
\<close>

record config =
  require_luhn_validation :: bool
  minimum_confidence_score :: rat
  context_window_chars :: int
  exclude_masked_patterns :: bool
  show_last4_only :: bool
  allow_full_pan_retention :: bool
  redact_pan :: bool

text \<open>
  \<open>CARD_PATTERNS\<close> as \<open>_compile_patterns\<close> compiles them: \<open>\b\<close>, the pattern text and
  \<open>\b\<close> are joined as text, so the top-level alternation of the MasterCard pattern
  leaves the first alternative without the closing \<open>\b\<close> and the second without the
  opening one.
\<close>

definition visa_rx :: regex where
  "visa_rx = seqs [WordB, lit CHR ''4'', times 12 digit, opt (times 3 digit), WordB]"

definition mastercard_rx :: regex where
  "mastercard_rx =
     Alt (seqs [WordB, lit CHR ''5'', one_of ''12345'', times 14 digit])
         (seqs [lit CHR ''2'',
                Alt (Seq (lit CHR ''2'')
                         (Alt (Seq (lit CHR ''2'') (one_of ''123456789''))
                              (Seq (one_of ''3456789'') digit)))
                    (Alt (seqs [one_of ''3456'', digit, digit])
                         (Seq (lit CHR ''7'') (Alt (Seq (one_of ''01'') digit) (text_rx ''20'')))),
                times 12 digit, WordB])"

definition amex_rx :: regex where
  "amex_rx = seqs [WordB, lit CHR ''3'', one_of ''47'', times 13 digit, WordB]"

definition discover_rx :: regex where
  "discover_rx =
     seqs [WordB, lit CHR ''6'', Alt (text_rx ''011'') (Seq (lit CHR ''5'') (times 2 digit)),
           times 12 digit, WordB]"

definition diners_rx :: regex where
  "diners_rx =
     seqs [WordB, lit CHR ''3'',
           Alt (Seq (lit CHR ''0'') (one_of ''012345'')) (Seq (one_of ''68'') digit),
           times 11 digit, WordB]"

definition jcb_rx :: regex where
  "jcb_rx =
     seqs [WordB,
           Alt (text_rx ''2131'') (Alt (text_rx ''1800'') (Seq (text_rx ''35'') (times 3 digit))),
           times 11 digit, WordB]"

definition compiled_patterns :: "(CardType \<times> regex) list" where
  "compiled_patterns =
     [(VISA, visa_rx), (MASTERCARD, mastercard_rx), (AMEX, amex_rx),
      (DISCOVER, discover_rx), (DINERS, diners_rx), (JCB, jcb_rx)]"

text \<open>\<open>MASKED_PATTERNS\<close>, in the order of the source.\<close>

definition masked_regex :: "regex list" where
  "masked_regex =
     [Many (\<lambda>c. c = CHR ''*'') 4,
      Many (\<lambda>c. c = CHR ''X'') 4,
      Many (\<lambda>c. c = CHR ''#'') 4,
      Seq (Many (\<lambda>c. c = CHR ''*'') 1) (times 4 digit),
      Seq (Many (\<lambda>c. c = CHR ''X'') 1) (times 4 digit),
      Seq (Many (\<lambda>c. c = CHR ''#'') 1) (times 4 digit),
      Seq (times 4 digit) (Many (\<lambda>c. c \<in> set ''*X#'') 4),
      seqs [times 4 digit, lit CHR ''-'', times 4 (lit CHR ''*''), lit CHR ''-'',
            times 4 (lit CHR ''*''), lit CHR ''-'', times 4 digit]]"

text \<open>\<open>[int(d) for d in card_number if d.isdigit()]\<close>\<close>

fun digits_of :: "string \<Rightarrow> py_error + int list" where
  "digits_of [] = Inr []"
| "digits_of (d # ds) =
     (if isdigit d
      then (case int_of_char d of
              Inl e \<Rightarrow> Inl e
            | Inr v \<Rightarrow> (case digits_of ds of Inl e \<Rightarrow> Inl e | Inr vs \<Rightarrow> Inr (v # vs)))
      else digits_of ds)"

text \<open>The checksum loop: the parity, the index, the checksum so far, the digits left.\<close>

fun luhn_loop :: "nat \<Rightarrow> nat \<Rightarrow> int \<Rightarrow> int list \<Rightarrow> int" where
  "luhn_loop parity i checksum [] = checksum"
| "luhn_loop parity i checksum (d # rest) =
     luhn_loop parity (Suc i)
       (checksum + (if i mod 2 = parity then (if d * 2 > 9 then d * 2 - 9 else d * 2) else d))
       rest"

definition luhn_check :: "string \<Rightarrow> py_error + bool" where
  "luhn_check card_number =
     (case digits_of card_number of
        Inl e \<Rightarrow> Inl e
      | Inr digits \<Rightarrow>
          if length digits < 13 \<or> length digits > 19 then Inr False
          else Inr (luhn_loop (length digits mod 2) 0 0 digits mod 10 = 0))"

text \<open>The test of the masked patterns alone: some pattern is found in the text.\<close>

definition matches_masked_pattern :: "string \<Rightarrow> bool" where
  "matches_masked_pattern text = list_ex (\<lambda>r. search r text) masked_regex"

definition is_masked_number :: "config \<Rightarrow> string \<Rightarrow> bool" where
  "is_masked_number cfg text =
     (if \<not> exclude_masked_patterns cfg then False else matches_masked_pattern text)"

definition mask_pan :: "string \<Rightarrow> bool \<Rightarrow> string" where
  "mask_pan pan show_last4 =
     (if length pan < 4 then replicate (length pan) CHR ''*''
      else if show_last4
        then replicate (length pan - 4) CHR ''*'' @ py_slice pan (Some (- 4)) None
        else replicate (length pan) CHR ''*'')"

text \<open>\<open>hashlib.sha256(...).hexdigest()\<close> is a parameter \<open>sha256\<close> of the model.\<close>

definition hash_pan :: "(string \<Rightarrow> string) \<Rightarrow> string \<Rightarrow> string" where
  "hash_pan sha256 pan = sha256 pan"

definition payment_keywords :: "string list" where
  "payment_keywords =
     [''card'', ''credit'', ''debit'', ''payment'', ''visa'', ''mastercard'', ''amex'',
      ''discover'', ''pan'', ''account'', ''number'', ''cvv'', ''expiry'', ''expire'']"

definition calculate_confidence :: "string \<Rightarrow> CardType \<Rightarrow> bool \<Rightarrow> string \<Rightarrow> bool \<Rightarrow> rat" where
  "calculate_confidence match ctype luhn_ok context masked =
     (let c0 = 0 + 3 / 10;
          c1 = (if luhn_ok then c0 + 4 / 10 else c0);
          context_lower = lower context;
          keyword_matches = length (filter (contains_str context_lower) payment_keywords);
          c2 = c1 + min (of_nat keyword_matches * (5 / 100)) (2 / 10);
          c3 = (if masked then c2 - 2 / 10 else c2);
          c4 = (if ctype \<in> set [VISA, MASTERCARD, AMEX] then c3 + 1 / 10 else c3)
      in min (max c4 0) 1)"

text \<open>
  The body of the innermost loop of \<open>scan_text\<close> for one regex hit with span \<open>sp\<close> on a
  line: no match (a \<open>continue\<close>), one match, or the exception of \<open>luhn_check\<close>.
\<close>

definition scan_hit ::
  "config \<Rightarrow> string \<Rightarrow> nat \<Rightarrow> string \<Rightarrow> CardType \<Rightarrow> nat \<times> nat \<Rightarrow> py_error + PANMatch list" where
  "scan_hit cfg path line_num line ctype sp =
     (let pan_candidate = span_text line sp;
          digits_only = re_sub nondigit [] pan_candidate
      in if length digits_only < 13 \<or> length digits_only > 19 then Inr []
         else (case luhn_check digits_only of
                 Inl e \<Rightarrow> Inl e
               | Inr luhn_ok \<Rightarrow>
                   if require_luhn_validation cfg \<and> \<not> luhn_ok then Inr []
                   else
                     (let start_pos = max 0 (int (fst sp) - context_window_chars cfg);
                          end_pos = min (int (length line)) (int (snd sp) + context_window_chars cfg);
                          ctx_before = py_slice line (Some start_pos) (Some (int (fst sp)));
                          ctx_after = py_slice line (Some (int (snd sp))) (Some end_pos);
                          full_context = ctx_before @ pan_candidate @ ctx_after;
                          masked = is_masked_number cfg full_context;
                          confidence =
                            calculate_confidence pan_candidate ctype luhn_ok full_context masked
                      in if confidence < minimum_confidence_score cfg then Inr []
                         else Inr
                           [\<lparr>file_path = path,
                             line_number = line_num,
                             column_start = fst sp,
                             column_end = snd sp,
                             raw_match = (if allow_full_pan_retention cfg then pan_candidate else []),
                             masked_match = mask_pan digits_only (show_last4_only cfg),
                             card_type = ctype,
                             luhn_valid = luhn_ok,
                             confidence_score = confidence,
                             context_before =
                               (if length ctx_before > 50 then py_slice ctx_before (Some (- 50)) None
                                else ctx_before),
                             context_after =
                               (if length ctx_after > 50 then py_slice ctx_after None (Some 50)
                                else ctx_after),
                             is_masked = masked\<rparr>])))"

definition scan_line :: "config \<Rightarrow> string \<Rightarrow> nat \<Rightarrow> string \<Rightarrow> py_error + PANMatch list" where
  "scan_line cfg path line_num line =
     (if is_masked_number cfg line then Inr []
      else collect (map (\<lambda>(ctype, pattern).
              collect (map (scan_hit cfg path line_num line ctype) (finditer pattern line)))
            compiled_patterns))"

definition scan_text :: "config \<Rightarrow> string \<Rightarrow> string \<Rightarrow> py_error + PANMatch list" where
  "scan_text cfg text path =
     (let lines = split_lines text
      in collect (map (\<lambda>(line_num, line). scan_line cfg path line_num line)
                      (zip [1..<Suc (length lines)] lines)))"

section \<open>Python values, dictionaries and JSON\<close>

text \<open>
  A dictionary with text keys is an association list in insertion order with distinct
  keys; assigning to a present key keeps its place.
\<close>

datatype pyval =
    PNone
  | PBool bool
  | PInt int
  | PNum rat
  | PStr string
  | PList "pyval list"
  | PDict "(string \<times> pyval) list"

type_synonym pydict = "(string \<times> pyval) list"

fun dict_set :: "string \<Rightarrow> pyval \<Rightarrow> pydict \<Rightarrow> pydict" where
  "dict_set k v [] = [(k, v)]"
| "dict_set k v ((k', v') # d) = (if k' = k then (k, v) # d else (k', v') # dict_set k v d)"

definition dict_get :: "pydict \<Rightarrow> string \<Rightarrow> pyval \<Rightarrow> pyval" where
  "dict_get d k dflt = (case map_of d k of None \<Rightarrow> dflt | Some v \<Rightarrow> v)"

definition bind_err :: "py_error + 'a \<Rightarrow> ('a \<Rightarrow> py_error + 'b) \<Rightarrow> py_error + 'b" where
  "bind_err x f = (case x of Inl e \<Rightarrow> Inl e | Inr a \<Rightarrow> f a)"

function show_nat :: "nat \<Rightarrow> string" where
  "show_nat n =
     (if n < 10 then [''0123456789'' ! n]
      else show_nat (n div 10) @ [''0123456789'' ! (n mod 10)])"
  by pat_completeness auto
termination
  by (relation "measure id") auto

definition show_int :: "int \<Rightarrow> string" where
  "show_int i = (if i < 0 then CHR ''-'' # show_nat (nat (- i)) else show_nat (nat i))"

fun intercalate :: "string \<Rightarrow> string list \<Rightarrow> string" where
  "intercalate sep [] = []"
| "intercalate sep [x] = x"
| "intercalate sep (x # y # ys) = x @ sep @ intercalate sep (y # ys)"

text \<open>
  \<open>json.dumps\<close> with the default separators and \<open>ensure_ascii\<close>: inside a string the
  quote and the backslash are escaped, the control characters have their short escapes
  or \<open>\u00XX\<close>, and every character outside the printable ASCII range is written
  \<open>\u00XX\<close>. The text of a float is a parameter \<open>fr\<close> of the model. With \<open>sort_keys\<close>
  the items of every dictionary are written in the order of their keys.
\<close>

definition bslash :: char where
  "bslash = CHR 0x5C"

definition json_escape_char :: "char \<Rightarrow> string" where
  "json_escape_char c =
     (let n = (of_char c :: nat) in
      if c = CHR 0x22 then [bslash, CHR 0x22]
      else if c = bslash then [bslash, bslash]
      else if n = 10 then [bslash, CHR ''n'']
      else if n = 13 then [bslash, CHR ''r'']
      else if n = 9 then [bslash, CHR ''t'']
      else if n = 8 then [bslash, CHR ''b'']
      else if n = 12 then [bslash, CHR ''f'']
      else if n < 32 \<or> 126 < n
        then [bslash, CHR ''u'', CHR ''0'', CHR ''0'',
              ''0123456789abcdef'' ! (n div 16), ''0123456789abcdef'' ! (n mod 16)]
      else [c])"

definition json_string :: "string \<Rightarrow> string" where
  "json_string s = CHR 0x22 # concat (map json_escape_char s) @ [CHR 0x22]"

fun insert_item :: "string \<times> 'a \<Rightarrow> (string \<times> 'a) list \<Rightarrow> (string \<times> 'a) list" where
  "insert_item x [] = [x]"
| "insert_item x (y # ys) =
     (if lexordp (\<lambda>a b. (of_char a :: nat) < of_char b) (fst y) (fst x)
      then y # insert_item x ys else x # y # ys)"

definition sort_items :: "(string \<times> 'a) list \<Rightarrow> (string \<times> 'a) list" where
  "sort_items d = foldr insert_item d []"

fun json_dumps :: "(rat \<Rightarrow> string) \<Rightarrow> bool \<Rightarrow> pyval \<Rightarrow> string" where
  "json_dumps fr sk PNone = ''null''"
| "json_dumps fr sk (PBool b) = (if b then ''true'' else ''false'')"
| "json_dumps fr sk (PInt i) = show_int i"
| "json_dumps fr sk (PNum x) = fr x"
| "json_dumps fr sk (PStr s) = json_string s"
| "json_dumps fr sk (PList xs) = ''['' @ intercalate '', '' (map (json_dumps fr sk) xs) @ '']''"
| "json_dumps fr sk (PDict d) =
     ''{'' @ intercalate '', ''
              (map snd ((if sk then sort_items else id)
                 (map (\<lambda>(k, v). (k, json_string k @ '': '' @ json_dumps fr sk v)) d)))
         @ ''}''"

section \<open>The report generator (\<open>report_generator.py\<close>)\<close>

text \<open>
  The replacement text of \<open>re.sub\<close> is a template: a backslash escapes the next
  character. The escapes \<open>\a \b \f \n \r \t \v \\\<close> stand for one character, a
  backslash before any other ASCII letter or at the end is the error \<open>bad escape\<close>, and
  a backslash before any other character stays. The library expands the template before
  it looks for a match. Group references (a backslash before a digit or \<open>g\<close>) do not
  occur in the program and are given the error as well.
\<close>

definition ascii_letter :: "char \<Rightarrow> bool" where
  "ascii_letter c =
     (c \<in> set ''ABCDEFGHIJKLMNOPQRSTUVWXYZabcdefghijklmnopqrstuvwxyz'')"

definition template_escape :: "char \<Rightarrow> py_error + string" where
  "template_escape d =
     (if d = CHR ''a'' then Inr [CHR 0x07]
      else if d = CHR ''b'' then Inr [CHR 0x08]
      else if d = CHR ''f'' then Inr [CHR 0x0C]
      else if d = CHR ''n'' then Inr [CHR 0x0A]
      else if d = CHR ''r'' then Inr [CHR 0x0D]
      else if d = CHR ''t'' then Inr [CHR 0x09]
      else if d = CHR ''v'' then Inr [CHR 0x0B]
      else if d = bslash then Inr [bslash]
      else if ascii_letter d \<or> ascii_digit d then Inl ReError
      else Inr [bslash, d])"

fun expand_template :: "string \<Rightarrow> py_error + string" where
  "expand_template [] = Inr []"
| "expand_template [c] = (if c = bslash then Inl ReError else Inr [c])"
| "expand_template (c # d # cs) =
     (if c = bslash
      then bind_err (template_escape d) (\<lambda>t0.
           bind_err (expand_template cs) (\<lambda>t. Inr (t0 @ t)))
      else bind_err (expand_template (d # cs)) (\<lambda>t. Inr (c # t)))"

definition py_re_sub :: "regex \<Rightarrow> string \<Rightarrow> string \<Rightarrow> py_error + string" where
  "py_re_sub r template s = bind_err (expand_template template) (\<lambda>repl. Inr (re_sub r repl s))"

text \<open>The three patterns of \<open>_sanitize_file_path\<close>, the same in both classes.\<close>

definition users_slash_rx :: regex where
  "users_slash_rx = seqs [text_rx ''/Users/'', Many (\<lambda>c. c \<noteq> CHR ''/'') 1, lit CHR ''/'']"

definition users_bslash_rx :: regex where
  "users_bslash_rx =
     seqs [lit bslash, text_rx ''Users'', lit bslash, Many (\<lambda>c. c \<noteq> bslash) 1, lit bslash]"

definition c_users_bslash_rx :: regex where
  "c_users_bslash_rx =
     seqs [text_rx ''C:'', lit bslash, text_rx ''Users'', lit bslash,
           Many (\<lambda>c. c \<noteq> bslash) 1, lit bslash]"

text \<open>
  \<open>ReportGenerator._sanitize_file_path\<close>. Its second and third templates are raw
  strings with doubled backslashes.
\<close>

definition sanitize_file_path :: "string \<Rightarrow> py_error + string" where
  "sanitize_file_path path =
     bind_err (py_re_sub users_slash_rx ''/Users/<user>/'' path) (\<lambda>s1.
     bind_err (py_re_sub users_bslash_rx
                 ([bslash, bslash] @ ''Users'' @ [bslash, bslash] @ ''<user>'' @ [bslash, bslash])
                 s1) (\<lambda>s2.
     py_re_sub c_users_bslash_rx
       (''C:'' @ [bslash, bslash] @ ''Users'' @ [bslash, bslash] @ ''<user>'' @ [bslash, bslash])
       s2))"

text \<open>
  \<open>AuditLogger._sanitize_file_path\<close> (\<open>audit_logger.py\<close>). Its second and third
  templates are ordinary string literals, in which \<open>\\\<close> is one backslash.
\<close>

definition audit_sanitize_file_path :: "string \<Rightarrow> py_error + string" where
  "audit_sanitize_file_path path =
     bind_err (py_re_sub users_slash_rx ''/Users/<user>/'' path) (\<lambda>s1.
     bind_err (py_re_sub users_bslash_rx
                 ([bslash] @ ''Users'' @ [bslash] @ ''<user>'' @ [bslash])
                 s1) (\<lambda>s2.
     py_re_sub c_users_bslash_rx
       (''C:'' @ [bslash] @ ''Users'' @ [bslash] @ ''<user>'' @ [bslash])
       s2))"

definition email_rx :: regex where
  "email_rx =
     seqs [WordB,
           Many (\<lambda>c. ascii_letter c \<or> ascii_digit c \<or> c \<in> set ''._%+-'') 1,
           lit CHR ''@'',
           Many (\<lambda>c. ascii_letter c \<or> ascii_digit c \<or> c \<in> set ''.-'') 1,
           lit CHR ''.'',
           Many (\<lambda>c. ascii_letter c \<or> c = CHR ''|'') 2,
           WordB]"

definition ssn_rx :: regex where
  "ssn_rx =
     seqs [WordB, times 3 digit, lit CHR ''-'', times 2 digit, lit CHR ''-'', times 4 digit, WordB]"

definition sanitize_context :: "string \<Rightarrow> py_error + string" where
  "sanitize_context context =
     (if context = [] then Inr []
      else bind_err (py_re_sub email_rx ''<email>'' context) (\<lambda>s1.
           bind_err (py_re_sub ssn_rx ''<ssn>'' s1) (\<lambda>s2.
           Inr (if length s2 > 200 then py_slice s2 None (Some 200) @ ''...'' else s2))))"

definition calculate_priority :: "PANMatch \<Rightarrow> string" where
  "calculate_priority m =
     (let s1 = (if luhn_valid m then (3::int) else 0);
          s2 = (if \<not> is_masked m then s1 + 2 else s1);
          s3 = (if confidence_score m > 8 / 10 then s2 + 2 else s2);
          score = (if card_type m \<in> set [VISA, MASTERCARD, AMEX] then s3 + 1 else s3)
      in if score \<ge> 5 then ''critical''
         else if score \<ge> 3 then ''high''
         else if score \<ge> 1 then ''medium''
         else ''low'')"

definition get_remediation_suggestions :: "PANMatch \<Rightarrow> string list" where
  "get_remediation_suggestions m =
     (if \<not> is_masked m \<and> luhn_valid m
        then [''URGENT: Unmasked valid PAN detected - secure immediately''] else [])
     @ (if luhn_valid m
        then [''Implement PAN masking or tokenization'', ''Review data retention policies'',
              ''Ensure PCI-DSS compliance for data handling''] else [])
     @ (if confidence_score m > 7 / 10
        then [''High confidence match - verify and remediate''] else [])
     @ [''Consider data encryption at rest'', ''Implement access controls and audit logging'']"

text \<open>\<open>round(x, 3)\<close>, idealised: to the nearest thousandth, ties to the even one.\<close>

definition round_half_even :: "rat \<Rightarrow> int" where
  "round_half_even x =
     (let f = \<lfloor>x\<rfloor>; d = x - of_int f
      in if d < 1 / 2 then f else if d > 1 / 2 then f + 1 else if even f then f else f + 1)"

definition round3 :: "rat \<Rightarrow> rat" where
  "round3 x = of_int (round_half_even (x * 1000)) / 1000"

text \<open>The \<open>pan_data\<close> entry of a finding.\<close>

definition pan_data :: "(string \<Rightarrow> string) \<Rightarrow> config \<Rightarrow> PANMatch \<Rightarrow> pydict" where
  "pan_data sha256 cfg m =
     (if allow_full_pan_retention cfg \<and> \<not> redact_pan cfg
      then [(''full_number'', PStr (raw_match m)),
            (''masked_number'', PStr (masked_match m)),
            (''hash'', if raw_match m \<noteq> [] then PStr (sha256 (raw_match m)) else PNone)]
      else [(''masked_number'', PStr (masked_match m)),
            (''hash'', if raw_match m \<noteq> [] then PStr (sha256 (raw_match m)) else PNone)])"

text \<open>The body of the loop of \<open>_process_findings\<close>: the finding of one match.\<close>

definition process_finding :: "(string \<Rightarrow> string) \<Rightarrow> config \<Rightarrow> PANMatch \<Rightarrow> py_error + pyval" where
  "process_finding sha256 cfg m =
     bind_err (sanitize_file_path (file_path m)) (\<lambda>path.
     bind_err (sanitize_context (context_before m)) (\<lambda>before_text.
     bind_err (sanitize_context (context_after m)) (\<lambda>after_text.
     Inr (PDict
       [(''file_path'', PStr path),
        (''line_number'', PInt (int (line_number m))),
        (''column_range'', PList [PInt (int (column_start m)), PInt (int (column_end m))]),
        (''card_type'', PStr (card_type_value (card_type m))),
        (''luhn_valid'', PBool (luhn_valid m)),
        (''confidence_score'', PNum (round3 (confidence_score m))),
        (''is_masked'', PBool (is_masked m)),
        (''context'', PDict [(''before'', PStr before_text), (''after'', PStr after_text)]),
        (''remediation_priority'', PStr (calculate_priority m)),
        (''remediation_suggestions'', PList (map PStr (get_remediation_suggestions m))),
        (''pan_data'', PDict (pan_data sha256 cfg m))]))))"

fun process_findings :: "(string \<Rightarrow> string) \<Rightarrow> config \<Rightarrow> PANMatch list \<Rightarrow> py_error + pyval list" where
  "process_findings sha256 cfg [] = Inr []"
| "process_findings sha256 cfg (m # matches) =
     bind_err (process_finding sha256 cfg m) (\<lambda>finding.
     bind_err (process_findings sha256 cfg matches) (\<lambda>rest. Inr (finding # rest)))"

definition bump_count :: "string \<Rightarrow> pydict \<Rightarrow> pydict" where
  "bump_count k d = dict_set k (case dict_get d k (PInt 0) of PInt c \<Rightarrow> PInt (c + 1) | v \<Rightarrow> v) d"

definition count_where :: "(PANMatch \<Rightarrow> bool) \<Rightarrow> PANMatch list \<Rightarrow> pyval" where
  "count_where P matches = PInt (int (length (filter P matches)))"

definition categorize_findings :: "PANMatch list \<Rightarrow> pyval" where
  "categorize_findings matches =
     PDict
       [(''by_card_type'',
           PDict (foldl (\<lambda>d m. bump_count (card_type_value (card_type m)) d) [] matches)),
        (''by_validation_status'',
           PDict [(''luhn_valid'', count_where luhn_valid matches),
                  (''luhn_invalid'', count_where (\<lambda>m. \<not> luhn_valid m) matches)]),
        (''by_confidence'',
           PDict [(''high'', count_where (\<lambda>m. confidence_score m > 8 / 10) matches),
                  (''medium'', count_where (\<lambda>m. \<not> confidence_score m > 8 / 10
                                                  \<and> confidence_score m > 5 / 10) matches),
                  (''low'', count_where (\<lambda>m. \<not> confidence_score m > 8 / 10
                                               \<and> \<not> confidence_score m > 5 / 10) matches)]),
        (''by_masking_status'',
           PDict [(''masked'', count_where is_masked matches),
                  (''unmasked'', count_where (\<lambda>m. \<not> is_masked m) matches)])]"

definition assess_risk :: "PANMatch list \<Rightarrow> pyval" where
  "assess_risk matches =
     (if matches = []
      then PDict [(''overall_risk'', PStr ''low''), (''risk_factors'', PList []),
                  (''compliance_status'', PStr ''compliant'')]
      else
        (let high = filter (\<lambda>m. luhn_valid m \<and> \<not> is_masked m) matches;
             risk_factors = map (\<lambda>m. PStr (''Unmasked valid PAN in '' @ file_path m)) high;
             high_risk_count = length high;
             overall =
               (if high_risk_count > 0 then (''critical'', ''non-compliant'')
                else if length matches > 10 then (''high'', ''review-required'')
                else if length matches > 0 then (''medium'', ''review-required'')
                else (''low'', ''compliant''))
         in PDict [(''overall_risk'', PStr (fst overall)),
                   (''risk_factors'', PList (py_slice risk_factors None (Some 10))),
                   (''compliance_status'', PStr (snd overall)),
                   (''total_high_risk_findings'', PInt (int high_risk_count))]))"

definition generate_recommendations :: "PANMatch list \<Rightarrow> string list" where
  "generate_recommendations matches =
     (if list_ex (\<lambda>m. \<not> is_masked m \<and> luhn_valid m) matches
        then [''CRITICAL: Secure unmasked PANs immediately'',
              ''Implement PAN masking/tokenization solution''] else [])
     @ [''Implement regular PCI compliance scanning'',
        ''Establish data retention and disposal policies'',
        ''Implement strong access controls and authentication'',
        ''Enable comprehensive audit logging'']
     @ (if length matches > 5
        then [''Consider automated PAN discovery and classification''] else [])"

text \<open>
  \<open>create_report\<close>. The clock is the parameter \<open>timestamp\<close> (the text of
  \<open>timestamp.isoformat()\<close>); \<open>sha256\<close> and the text \<open>fr\<close> of a float are parameters.
  \<open>report_body\<close> is the dictionary as first built, with an empty \<open>report_hash\<close>.
\<close>

definition report_body ::
  "string \<Rightarrow> string \<Rightarrow> string \<Rightarrow> string \<Rightarrow> PANMatch list \<Rightarrow> pydict \<Rightarrow> pydict \<Rightarrow> pyval list \<Rightarrow> pydict" where
  "report_body timestamp agent_id scan_id operator matches scan_stats config_summary findings =
     [(''metadata'',
         PDict [(''report_version'', PStr ''1.0''),
                (''agent_id'', PStr agent_id),
                (''scan_id'', PStr scan_id),
                (''timestamp'', PStr timestamp),
                (''operator'', PStr operator),
                (''report_hash'', PStr [])]),
      (''scan_parameters'',
         PDict [(''directories_scanned'', dict_get config_summary ''scan_directories'' (PInt 0)),
                (''exclude_patterns_count'', dict_get config_summary ''exclude_patterns'' (PInt 0)),
                (''detect_plain_pan_enabled'',
                   dict_get config_summary ''detect_plain_pan'' (PBool False)),
                (''action_policy'', dict_get config_summary ''action_policy'' (PStr ''report_only'')),
                (''max_file_size_mb'', dict_get config_summary ''max_file_size_mb'' (PInt 10)),
                (''concurrency'', dict_get config_summary ''concurrency'' (PInt 4)),
                (''privacy_settings'',
                   PDict [(''redact_pan'',
                             dict_get config_summary ''privacy_redact_pan'' (PBool True)),
                          (''show_last4_only'',
                             dict_get config_summary ''privacy_show_last4_only'' (PBool True))])]),
      (''scan_results'',
         PDict [(''summary'',
                   PDict [(''total_files_scanned'', dict_get scan_stats ''files_scanned'' (PInt 0)),
                          (''total_files_skipped'', dict_get scan_stats ''files_skipped'' (PInt 0)),
                          (''total_directories_scanned'',
                             dict_get scan_stats ''directories_scanned'' (PInt 0)),
                          (''total_matches_found'', PInt (int (length matches))),
                          (''errors_encountered'', dict_get scan_stats ''errors'' (PInt 0)),
                          (''scan_duration_seconds'',
                             dict_get scan_stats ''duration_seconds'' (PInt 0))]),
                (''findings_by_type'', categorize_findings matches),
                (''findings'', PList findings),
                (''risk_assessment'', assess_risk matches)]),
      (''compliance_notes'',
         PDict [(''data_handling'',
                   PStr ''This report follows PCI-DSS data minimization principles''),
                (''retention_policy'',
                   PStr ''Sensitive data is masked unless explicitly authorized''),
                (''audit_trail'', PStr (''Full audit log available for scan '' @ scan_id)),
                (''recommendations'', PList (map PStr (generate_recommendations matches)))])]"

text \<open>\<open>report["metadata"]["report_hash"] = h\<close> and \<open>report["metadata"]["report_hash"]\<close>.\<close>

definition set_report_hash :: "pydict \<Rightarrow> string \<Rightarrow> py_error + pydict" where
  "set_report_hash report h =
     (case map_of report ''metadata'' of
        None \<Rightarrow> Inl KeyError
      | Some (PDict metadata) \<Rightarrow>
          Inr (dict_set ''metadata'' (PDict (dict_set ''report_hash'' (PStr h) metadata)) report)
      | Some _ \<Rightarrow> Inl TypeError)"

definition get_report_hash :: "pydict \<Rightarrow> py_error + pyval" where
  "get_report_hash report =
     (case map_of report ''metadata'' of
        None \<Rightarrow> Inl KeyError
      | Some (PDict metadata) \<Rightarrow>
          (case map_of metadata ''report_hash'' of None \<Rightarrow> Inl KeyError | Some v \<Rightarrow> Inr v)
      | Some _ \<Rightarrow> Inl TypeError)"

definition create_report ::
  "(string \<Rightarrow> string) \<Rightarrow> (rat \<Rightarrow> string) \<Rightarrow> config \<Rightarrow> string
     \<Rightarrow> string \<Rightarrow> string \<Rightarrow> string \<Rightarrow> PANMatch list \<Rightarrow> pydict \<Rightarrow> pydict \<Rightarrow> py_error + pydict" where
  "create_report sha256 fr cfg timestamp agent_id scan_id operator matches scan_stats config_summary =
     bind_err (process_findings sha256 cfg matches) (\<lambda>findings.
       (let report = report_body timestamp agent_id scan_id operator matches scan_stats
                       config_summary findings;
            report_json = json_dumps fr True (PDict report)
        in set_report_hash report (sha256 report_json)))"

section \<open>The secure client (\<open>secure_client.py\<close>)\<close>

text \<open>\<open>r'\b[0-9]{13,19}\b'\<close>\<close>

definition pan_pattern :: regex where
  "pan_pattern = seqs [WordB, Rep digit 13 19, WordB]"

definition startswith :: "string \<Rightarrow> string \<Rightarrow> bool" where
  "startswith s p = (take (length p) s = p)"

text \<open>\<open>[int(d) for d in pan]\<close>\<close>

fun ints_of :: "string \<Rightarrow> py_error + int list" where
  "ints_of [] = Inr []"
| "ints_of (d # ds) =
     bind_err (int_of_char d) (\<lambda>v. bind_err (ints_of ds) (\<lambda>vs. Inr (v # vs)))"

text \<open>
  The body of the loop over the potential card numbers: whether this one makes
  \<open>_contains_sensitive_data\<close> return true. Numbers that begin with 201 or 202 are passed
  over as timestamps.
\<close>

definition pan_is_sensitive :: "string \<Rightarrow> py_error + bool" where
  "pan_is_sensitive pan =
     (if length pan \<ge> 13 \<and> \<not> (startswith pan ''202'' \<or> startswith pan ''201'')
      then bind_err (ints_of pan) (\<lambda>digits.
             Inr (luhn_loop (length digits mod 2) 0 0 digits mod 10 = 0))
      else Inr False)"

fun any_sensitive :: "string list \<Rightarrow> py_error + bool" where
  "any_sensitive [] = Inr False"
| "any_sensitive (pan # pans) =
     bind_err (pan_is_sensitive pan) (\<lambda>hit. if hit then Inr True else any_sensitive pans)"

definition contains_sensitive_data :: "(rat \<Rightarrow> string) \<Rightarrow> pydict \<Rightarrow> py_error + bool" where
  "contains_sensitive_data fr report =
     any_sensitive (findall pan_pattern (lower (json_dumps fr False (PDict report))))"

text \<open>\<open>field in container\<close>, \<open>container.get(key, default)\<close> and the truth value of a value.\<close>

definition py_in :: "string \<Rightarrow> pyval \<Rightarrow> py_error + bool" where
  "py_in field container =
     (case container of
        PDict d \<Rightarrow> Inr (field \<in> fst ` set d)
      | PStr s \<Rightarrow> Inr (contains_str s field)
      | PList xs \<Rightarrow> Inr (PStr field \<in> set xs)
      | _ \<Rightarrow> Inl TypeError)"

definition py_get :: "pyval \<Rightarrow> string \<Rightarrow> pyval \<Rightarrow> py_error + pyval" where
  "py_get container k dflt =
     (case container of PDict d \<Rightarrow> Inr (dict_get d k dflt) | _ \<Rightarrow> Inl AttributeError)"

fun truthy :: "pyval \<Rightarrow> bool" where
  "truthy PNone = False"
| "truthy (PBool b) = b"
| "truthy (PInt i) = (i \<noteq> 0)"
| "truthy (PNum x) = (x \<noteq> 0)"
| "truthy (PStr s) = (s \<noteq> [])"
| "truthy (PList xs) = (xs \<noteq> [])"
| "truthy (PDict d) = (d \<noteq> [])"

text \<open>A loop that returns false at the first field that is missing.\<close>

fun check_fields :: "string list \<Rightarrow> pyval \<Rightarrow> py_error + bool" where
  "check_fields [] container = Inr True"
| "check_fields (field # rest) container =
     bind_err (py_in field container) (\<lambda>present.
       if present then check_fields rest container else Inr False)"

definition validate_report :: "(rat \<Rightarrow> string) \<Rightarrow> pydict \<Rightarrow> py_error + bool" where
  "validate_report fr report =
     bind_err (check_fields [''metadata'', ''scan_parameters'', ''scan_results'', ''compliance_notes'']
                 (PDict report)) (\<lambda>fields_ok.
       if \<not> fields_ok then Inr False
       else bind_err (check_fields [''agent_id'', ''scan_id'', ''timestamp'', ''operator'']
                        (dict_get report ''metadata'' (PDict []))) (\<lambda>metadata_ok.
         if \<not> metadata_ok then Inr False
         else bind_err (contains_sensitive_data fr report) (\<lambda>sensitive.
           if sensitive then Inr False else Inr True)))"

text \<open>
  \<open>_transform_report_for_server\<close>. The parsing of the timestamp by the \<open>datetime\<close>
  module is the parameter \<open>iso_date\<close>: the date text, or \<open>None\<close> when the parser raises.
\<close>

definition scan_date_of :: "(string \<Rightarrow> string option) \<Rightarrow> pyval \<Rightarrow> py_error + pyval" where
  "scan_date_of iso_date timestamp =
     (if \<not> truthy timestamp then Inr timestamp
      else bind_err (py_in ''T'' timestamp) (\<lambda>has_t.
        if \<not> has_t then Inr timestamp
        else (case timestamp of
                PStr t \<Rightarrow>
                  (case iso_date (concat (map (\<lambda>c. if c = CHR ''Z'' then ''+00:00'' else [c]) t)) of
                     Some d \<Rightarrow> Inr (PStr d)
                   | None \<Rightarrow> Inr (PStr (takeWhile (\<lambda>c. c \<noteq> CHR ''T'') t)))
              | _ \<Rightarrow> Inl AttributeError)))"

definition default_directories :: "pyval \<Rightarrow> py_error + pyval" where
  "default_directories dirs_count =
     (case dirs_count of
        PInt n \<Rightarrow> Inr (PList (map (\<lambda>i. PStr (''directory_'' @ show_nat (i + 1))) [0..<nat n]))
      | PBool b \<Rightarrow> Inr (PList (if b then [PStr ''directory_1''] else []))
      | _ \<Rightarrow> Inl TypeError)"

definition transform_report_for_server ::
  "(string \<Rightarrow> string option) \<Rightarrow> pydict \<Rightarrow> py_error + pyval" where
  "transform_report_for_server iso_date report =
     (let metadata = dict_get report ''metadata'' (PDict []);
          scan_params = dict_get report ''scan_parameters'' (PDict []);
          scan_results = dict_get report ''scan_results'' (PDict [])
      in bind_err (py_get scan_results ''summary'' (PDict [])) (\<lambda>summary.
         bind_err (py_get metadata ''timestamp'' (PStr [])) (\<lambda>timestamp.
         bind_err (scan_date_of iso_date timestamp) (\<lambda>scan_date.
         bind_err (py_get scan_params ''directories_scanned'' (PInt 0)) (\<lambda>dirs_count.
         bind_err (default_directories dirs_count) (\<lambda>generic_dirs.
         bind_err (py_get metadata ''agent_id'' (PStr [])) (\<lambda>agent_id.
         bind_err (py_get metadata ''operator'' (PStr [])) (\<lambda>operator.
         bind_err (py_get summary ''total_files_scanned'' (PInt 0)) (\<lambda>total_files_scanned.
         bind_err (py_get scan_results ''findings'' (PList [])) (\<lambda>findings.
         bind_err (py_get scan_params ''exclude_patterns_count'' (PInt 0)) (\<lambda>exclude_count.
         bind_err (py_get scan_params ''detect_plain_pan_enabled'' (PBool False)) (\<lambda>detect_plain.
         bind_err (py_get scan_params ''action_policy'' (PStr ''report_only'')) (\<lambda>action_policy.
         bind_err (py_get scan_params ''max_file_size_mb'' (PInt 10)) (\<lambda>max_size.
         bind_err (py_get scan_params ''concurrency'' (PInt 4)) (\<lambda>concurrency.
         bind_err (py_get scan_params ''privacy_settings'' (PDict [])) (\<lambda>privacy_settings.
         bind_err (py_get summary ''total_files_skipped'' (PInt 0)) (\<lambda>files_skipped.
         bind_err (py_get summary ''total_directories_scanned'' (PInt 0)) (\<lambda>dirs_scanned.
         bind_err (py_get summary ''total_matches_found'' (PInt 0)) (\<lambda>matches_found.
         bind_err (py_get summary ''errors_encountered'' (PInt 0)) (\<lambda>errors.
         bind_err (py_get summary ''scan_duration_seconds'' (PInt 0)) (\<lambda>duration.
         bind_err (py_get scan_results ''findings_by_type'' (PDict [])) (\<lambda>by_type.
         bind_err (py_get scan_results ''risk_assessment'' (PDict [])) (\<lambda>risk.
         bind_err (py_get metadata ''scan_id'' (PStr [])) (\<lambda>scan_id.
         bind_err (py_get metadata ''report_version'' (PStr [])) (\<lambda>report_version.
         bind_err (py_get metadata ''report_hash'' (PStr [])) (\<lambda>report_hash.
         Inr (PDict
           [(''agent_id'', agent_id),
            (''operator'', operator),
            (''scan_date'', scan_date),
            (''directories_scanned'', dict_get report ''actual_directories'' generic_dirs),
            (''total_files_scanned'', total_files_scanned),
            (''findings'', findings),
            (''scan_configuration'',
               PDict [(''exclude_patterns_count'', exclude_count),
                      (''detect_plain_pan_enabled'', detect_plain),
                      (''action_policy'', action_policy),
                      (''max_file_size_mb'', max_size),
                      (''concurrency'', concurrency),
                      (''privacy_settings'', privacy_settings)]),
            (''scan_results_summary'',
               PDict [(''total_files_skipped'', files_skipped),
                      (''total_directories_scanned'', dirs_scanned),
                      (''total_matches_found'', matches_found),
                      (''errors_encountered'', errors),
                      (''scan_duration_seconds'', duration),
                      (''findings_by_type'', by_type),
                      (''risk_assessment'', risk)]),
            (''metadata'',
               PDict [(''scan_id'', scan_id),
                      (''timestamp'', timestamp),
                      (''report_version'', report_version),
                      (''report_hash'', report_hash)]),
            (''compliance_notes'', dict_get report ''compliance_notes'' (PDict []))]
         )))))))))))))))))))))))))))"

text \<open>\<open>report['metadata']['scan_id']\<close>, read for the first log line of \<open>send_report\<close>.\<close>

definition scan_id_of :: "pydict \<Rightarrow> py_error + pyval" where
  "scan_id_of report =
     (case map_of report ''metadata'' of
        None \<Rightarrow> Inl KeyError
      | Some (PDict metadata) \<Rightarrow>
          (case map_of metadata ''scan_id'' of None \<Rightarrow> Inl KeyError | Some v \<Rightarrow> Inr v)
      | Some _ \<Rightarrow> Inl TypeError)"

text \<open>
  \<open>send_report\<close>. The server and the network are the parameter \<open>make_request\<close>: the
  outcome of \<open>_make_request('POST', '/api/reports', body)\<close>, a response or \<open>None\<close>. The
  result is the truth value returned and the list of the bodies handed to
  \<open>_make_request\<close>. Every exception is caught and gives false.
\<close>

definition send_report ::
  "(rat \<Rightarrow> string) \<Rightarrow> (string \<Rightarrow> string option) \<Rightarrow> (pyval \<Rightarrow> pyval option) \<Rightarrow> pydict
     \<Rightarrow> bool \<times> pyval list" where
  "send_report fr iso_date make_request report =
     (case bind_err (scan_id_of report) (\<lambda>_.
           bind_err (validate_report fr report) (\<lambda>valid.
             if \<not> valid then Inr None
             else bind_err (transform_report_for_server iso_date report) (\<lambda>server_report.
                    Inr (Some server_report)))) of
        Inl e \<Rightarrow> (False, [])
      | Inr None \<Rightarrow> (False, [])
      | Inr (Some server_report) \<Rightarrow> (make_request server_report \<noteq> None, [server_report]))"

section \<open>The file scanner (\<open>file_scanner.py\<close>)\<close>

text \<open>
  \<open>max_files\<close> and \<open>max_depth\<close> are the configured numbers, or \<open>float('inf')\<close> when the
  configuration says 0.
\<close>

datatype limit = Limit int | Unlimited

definition limit_of :: "int \<Rightarrow> limit" where
  "limit_of n = (if n = 0 then Unlimited else Limit n)"

definition reaches :: "int \<Rightarrow> limit \<Rightarrow> bool" where
  "reaches n l = (case l of Limit k \<Rightarrow> n \<ge> k | Unlimited \<Rightarrow> False)"

definition exceeds :: "int \<Rightarrow> limit \<Rightarrow> bool" where
  "exceeds n l = (case l of Limit k \<Rightarrow> n > k | Unlimited \<Rightarrow> False)"

record scanner_config =
  max_files_per_scan :: int
  max_recursion_depth :: int
  concurrency :: int
  exclude_patterns :: "string list"

definition max_files :: "scanner_config \<Rightarrow> limit" where
  "max_files cfg = limit_of (max_files_per_scan cfg)"

definition max_depth :: "scanner_config \<Rightarrow> limit" where
  "max_depth cfg = limit_of (max_recursion_depth cfg)"

record scan_stats =
  files_scanned :: int
  files_skipped :: int
  directories_scanned :: int
  matches_found :: int
  errors :: int

text \<open>
  \<open>is_excluded\<close>. \<open>fnmatch.fnmatch\<close> is the parameter \<open>fnm\<close>; \<open>dirname\<close> is
  \<open>os.path.dirname\<close> of POSIX and \<open>rstrip_chars\<close> is \<open>str.rstrip\<close> with a set of
  characters.
\<close>

definition to_slashes :: "string \<Rightarrow> string" where
  "to_slashes s = map (\<lambda>c. if c = bslash then CHR ''/'' else c) s"

definition rstrip_chars :: "string \<Rightarrow> string \<Rightarrow> string" where
  "rstrip_chars cs s = rev (dropWhile (\<lambda>c. c \<in> set cs) (rev s))"

definition dirname :: "string \<Rightarrow> string" where
  "dirname p =
     (let head = take (length p - length (takeWhile (\<lambda>c. c \<noteq> CHR ''/'') (rev p))) p
      in if head \<noteq> [] \<and> \<not> list_all (\<lambda>c. c = CHR ''/'') head then rstrip_chars ''/'' head
         else head)"

definition is_excluded :: "(string \<Rightarrow> string \<Rightarrow> bool) \<Rightarrow> scanner_config \<Rightarrow> string \<Rightarrow> bool" where
  "is_excluded fnm cfg path =
     (let path_str = to_slashes path
      in list_ex (\<lambda>pattern0.
                    (let pattern = to_slashes pattern0
                     in fnm path_str pattern \<or> fnm (dirname path_str) (rstrip_chars ''/*'' pattern)))
           (exclude_patterns cfg))"

text \<open>
  The part of the file system below a root, as \<open>walk_directory\<close> sees it: a file, a
  directory with the entries \<open>iterdir\<close> gives in their order, a directory whose listing is
  denied, an entry whose \<open>is_file\<close> raises, and anything else (a missing path, an entry
  that is neither a file nor a directory).
\<close>

datatype fs_node =
    FsFile string
  | FsDir string "fs_node list"
  | FsLocked string
  | FsDenied string
  | FsOther string

text \<open>
  \<open>walk_directory\<close> is a generator. Its run is the list of what it does in order: it
  yields a path or it counts in the statistics. The consumer takes the steps up to the
  yield at which it stops. \<open>scanned\<close> is \<open>stats['files_scanned']\<close>, which does not change
  while the generator runs in the counting pass.
\<close>

datatype walk_step = Yield string | DirScanned | FileSkipped | WalkError

fun walk_directory ::
      "(string \<Rightarrow> string \<Rightarrow> bool) \<Rightarrow> scanner_config \<Rightarrow> int \<Rightarrow> fs_node \<Rightarrow> int \<Rightarrow> walk_step list"
  and walk_items ::
      "(string \<Rightarrow> string \<Rightarrow> bool) \<Rightarrow> scanner_config \<Rightarrow> int \<Rightarrow> fs_node list \<Rightarrow> int \<Rightarrow> walk_step list"
where
  "walk_directory fnm cfg scanned (FsDir path items) depth =
     (if exceeds depth (max_depth cfg) then []
      else if is_excluded fnm cfg path then []
      else DirScanned # walk_items fnm cfg scanned items depth)"
| "walk_directory fnm cfg scanned (FsLocked path) depth =
     (if exceeds depth (max_depth cfg) then []
      else if is_excluded fnm cfg path then []
      else [DirScanned, WalkError])"
| "walk_directory fnm cfg scanned (FsDenied path) depth =
     (if exceeds depth (max_depth cfg) then [] else [WalkError])"
| "walk_directory fnm cfg scanned (FsFile path) depth = []"
| "walk_directory fnm cfg scanned (FsOther path) depth = []"
| "walk_items fnm cfg scanned [] depth = []"
| "walk_items fnm cfg scanned (item # items) depth =
     (if reaches scanned (max_files cfg) then []
      else (case item of
              FsFile path \<Rightarrow> if \<not> is_excluded fnm cfg path then [Yield path] else []
            | FsDir path sub \<Rightarrow> walk_directory fnm cfg scanned item (depth + 1)
            | FsLocked path \<Rightarrow> walk_directory fnm cfg scanned item (depth + 1)
            | FsDenied path \<Rightarrow> [FileSkipped]
            | FsOther path \<Rightarrow> [])
           @ walk_items fnm cfg scanned items depth)"

definition apply_step :: "walk_step \<Rightarrow> scan_stats \<Rightarrow> scan_stats" where
  "apply_step step stats =
     (case step of
        Yield path \<Rightarrow> stats
      | DirScanned \<Rightarrow> stats\<lparr>directories_scanned := directories_scanned stats + 1\<rparr>
      | FileSkipped \<Rightarrow> stats\<lparr>files_skipped := files_skipped stats + 1\<rparr>
      | WalkError \<Rightarrow> stats\<lparr>errors := errors stats + 1\<rparr>)"

text \<open>The dictionaries handed to \<open>progress_callback\<close>.\<close>

definition counting_event :: "string \<Rightarrow> nat \<Rightarrow> pyval" where
  "counting_event message total_files =
     PDict [(''phase'', PStr ''counting''), (''message'', PStr message),
            (''files_scanned'', PInt 0), (''total_files'', PInt (int total_files)),
            (''matches_found'', PInt 0)]"

definition scanning_start_event :: "nat \<Rightarrow> pyval" where
  "scanning_start_event total_files =
     PDict [(''phase'', PStr ''scanning''), (''message'', PStr ''Scanning files...''),
            (''files_scanned'', PInt 0), (''total_files'', PInt (int total_files)),
            (''matches_found'', PInt 0)]"

definition round1 :: "rat \<Rightarrow> rat" where
  "round1 x = of_int (round_half_even (x * 10)) / 10"

definition scanning_event :: "nat \<Rightarrow> nat \<Rightarrow> nat \<Rightarrow> string \<Rightarrow> nat \<Rightarrow> pyval" where
  "scanning_event completed total_files found current queued =
     PDict [(''phase'', PStr ''scanning''), (''files_scanned'', PInt (int completed)),
            (''total_files'', PInt (int total_files)), (''matches_found'', PInt (int found)),
            (''current_file'', PStr current), (''in_queue'', PInt (int queued)),
            (''percentage'', PNum (round1 (of_nat completed / of_nat total_files * 100)))]"

definition complete_event :: "nat \<Rightarrow> nat \<Rightarrow> nat \<Rightarrow> pyval" where
  "complete_event completed total_files found =
     PDict [(''phase'', PStr ''complete''), (''files_scanned'', PInt (int completed)),
            (''total_files'', PInt (int total_files)), (''matches_found'', PInt (int found)),
            (''current_file'', PStr ''Scan complete''), (''in_queue'', PInt 0),
            (''percentage'', PInt 100), (''completed'', PBool True)]"

text \<open>
  The counting pass. \<open>stop_requested\<close> is set by another thread: \<open>stop_seen i\<close> is what
  the \<open>i\<close>-th reading of the flag (counted from 0 over the whole call) finds.
  \<open>has_callback\<close> says whether a \<open>progress_callback\<close> was given.
\<close>

record pass1_state =
  all_files :: "string list"
  progress_events :: "pyval list"
  flag_reads :: nat
  stats :: scan_stats

text \<open>
  The inner loop over one generator: the first component of the result says whether the
  loop left the function (a stop); otherwise the loop ended or was broken out of.
\<close>

fun count_directory ::
  "scanner_config \<Rightarrow> bool \<Rightarrow> (nat \<Rightarrow> bool) \<Rightarrow> walk_step list \<Rightarrow> pass1_state \<Rightarrow> bool \<times> pass1_state" where
  "count_directory cfg has_callback stop_seen [] s = (False, s)"
| "count_directory cfg has_callback stop_seen (Yield path # steps) s =
     (let found = all_files s @ [path];
          s1 = s\<lparr>all_files := found,
                  progress_events :=
                    (if length found mod 1000 = 0 \<and> has_callback
                     then progress_events s
                            @ [counting_event (''Found '' @ show_nat (length found) @ '' files...'')
                                 (length found)]
                     else progress_events s),
                  flag_reads := Suc (flag_reads s)\<rparr>
      in if stop_seen (flag_reads s) then (True, s1)
         else if reaches (int (length found)) (max_files cfg) then (False, s1)
         else count_directory cfg has_callback stop_seen steps s1)"
| "count_directory cfg has_callback stop_seen (step # steps) s =
     count_directory cfg has_callback stop_seen steps (s\<lparr>stats := apply_step step (stats s)\<rparr>)"

fun count_files ::
  "(string \<Rightarrow> string \<Rightarrow> bool) \<Rightarrow> scanner_config \<Rightarrow> bool \<Rightarrow> (nat \<Rightarrow> bool) \<Rightarrow> fs_node list
     \<Rightarrow> pass1_state \<Rightarrow> bool \<times> pass1_state" where
  "count_files fnm cfg has_callback stop_seen [] s = (False, s)"
| "count_files fnm cfg has_callback stop_seen (directory # directories) s =
     (case count_directory cfg has_callback stop_seen
             (walk_directory fnm cfg (files_scanned (stats s)) directory 0) s of
        (True, s1) \<Rightarrow> (True, s1)
      | (False, s1) \<Rightarrow> count_files fnm cfg has_callback stop_seen directories s1)"

text \<open>
  The scanning pass. \<open>scan_file\<close> is the result of scanning one file and \<open>pick\<close> chooses
  which of the futures in flight completes next. The state of the loop: the futures in
  flight, the index of the next file to submit, the matches, the number of completed
  files, the events, the number of readings of the flag and the files submitted so far.
\<close>

record pass2_state =
  futures :: "string list"
  file_index :: nat
  all_matches :: "PANMatch list"
  files_completed :: nat
  events2 :: "pyval list"
  flag_reads2 :: nat
  submitted :: "string list"

function scan_loop ::
  "bool \<Rightarrow> (nat \<Rightarrow> bool) \<Rightarrow> (string \<Rightarrow> PANMatch list) \<Rightarrow> (string list \<Rightarrow> nat) \<Rightarrow> string list
     \<Rightarrow> pass2_state \<Rightarrow> pass2_state" where
  "scan_loop has_callback stop_seen scan_file pick files s =
     (if futures s = [] then s
      else if stop_seen (flag_reads2 s) then s\<lparr>flag_reads2 := Suc (flag_reads2 s)\<rparr>
      else
        (let i = pick (futures s) mod length (futures s);
             path = futures s ! i;
             rest = take i (futures s) @ drop (Suc i) (futures s);
             found = all_matches s @ scan_file path;
             completed = Suc (files_completed s);
             s1 = s\<lparr>futures := rest, all_matches := found, files_completed := completed,
                     events2 :=
                       (if has_callback
                        then events2 s
                               @ [scanning_event completed (length files) (length found) path
                                    (length rest)]
                        else events2 s),
                     flag_reads2 := Suc (flag_reads2 s)\<rparr>
         in if file_index s < length files
            then (if \<not> stop_seen (flag_reads2 s1)
                  then scan_loop has_callback stop_seen scan_file pick files
                         (s1\<lparr>futures := rest @ [files ! file_index s],
                              file_index := Suc (file_index s),
                              flag_reads2 := Suc (flag_reads2 s1),
                              submitted := submitted s @ [files ! file_index s]\<rparr>)
                  else scan_loop has_callback stop_seen scan_file pick files
                         (s1\<lparr>flag_reads2 := Suc (flag_reads2 s1)\<rparr>))
            else scan_loop has_callback stop_seen scan_file pick files s1))"
  by pat_completeness auto
termination
proof (relation "measure (\<lambda>(has_callback, stop_seen, scan_file, pick, files, s).
                   2 * (length files - file_index s) + length (futures s))", goal_cases)
  case 1
  show ?case by simp
next
  case (2 has_callback stop_seen scan_file pick files s i path rest found completed s1)
  have lt: "pick (futures s) mod length (futures s) < length (futures s)" using 2(1) by simp
  have h: "pick (futures s) mod length (futures s)
             + (length (futures s) - Suc (pick (futures s) mod length (futures s)))
           = length (futures s) - 1"
    using lt by linarith
  have pos: "0 < length (futures s)" using 2(1) by simp
  show ?case using 2 pos by (simp add: Let_def h; linarith)
next
  case (3 has_callback stop_seen scan_file pick files s i path rest found completed s1)
  have lt: "pick (futures s) mod length (futures s) < length (futures s)" using 3(1) by simp
  have h: "pick (futures s) mod length (futures s)
             + (length (futures s) - Suc (pick (futures s) mod length (futures s)))
           = length (futures s) - 1"
    using lt by linarith
  have pos: "0 < length (futures s)" using 3(1) by simp
  show ?case using 3 pos by (simp add: Let_def h; linarith)
next
  case (4 has_callback stop_seen scan_file pick files s i path rest found completed s1)
  have lt: "pick (futures s) mod length (futures s) < length (futures s)" using 4(1) by simp
  have h: "pick (futures s) mod length (futures s)
             + (length (futures s) - Suc (pick (futures s) mod length (futures s)))
           = length (futures s) - 1"
    using lt by linarith
  have pos: "0 < length (futures s)" using 4(1) by simp
  show ?case using 4 pos by (simp add: Let_def h; linarith)
qed

record scan_outcome =
  returned :: "PANMatch list"
  callback_events :: "pyval list"
  enumerated :: "string list"
  handed_to_pool :: "string list"

text \<open>
  \<open>scan_directories\<close>. The roots are given as the parts of the file system they name;
  \<open>stats0\<close> are the statistics at the call. \<open>ThreadPoolExecutor\<close> raises \<open>ValueError\<close>
  for a pool of no workers.
\<close>

definition scan_directories ::
  "(string \<Rightarrow> string \<Rightarrow> bool) \<Rightarrow> scanner_config \<Rightarrow> bool \<Rightarrow> (nat \<Rightarrow> bool)
     \<Rightarrow> (string \<Rightarrow> PANMatch list) \<Rightarrow> (string list \<Rightarrow> nat) \<Rightarrow> scan_stats \<Rightarrow> fs_node list
     \<Rightarrow> py_error + scan_outcome" where
  "scan_directories fnm cfg has_callback stop_seen scan_file pick stats0 directories =
     (let s0 = \<lparr>all_files = [],
                 progress_events =
                   (if has_callback then [counting_event ''Counting files...'' 0] else []),
                 flag_reads = 0,
                 stats = stats0\<rparr>
      in case count_files fnm cfg has_callback stop_seen directories s0 of
           (True, s1) \<Rightarrow>
             Inr \<lparr>returned = [], callback_events = progress_events s1,
                  enumerated = all_files s1, handed_to_pool = []\<rparr>
         | (False, s1) \<Rightarrow>
             (let files = all_files s1; total_files = length files
              in if total_files = 0
                 then Inr \<lparr>returned = [], callback_events = progress_events s1,
                           enumerated = files, handed_to_pool = []\<rparr>
                 else if concurrency cfg \<le> 0 then Inl ValueError
                 else
                   (let initial = take (min (nat (concurrency cfg * 2)) total_files) files;
                        s2 = scan_loop has_callback stop_seen scan_file pick files
                               \<lparr>futures = initial,
                                file_index = length initial,
                                all_matches = [],
                                files_completed = 0,
                                events2 =
                                  (if has_callback
                                   then progress_events s1 @ [scanning_start_event total_files]
                                   else progress_events s1),
                                flag_reads2 = flag_reads s1,
                                submitted = initial\<rparr>
                    in Inr \<lparr>returned = all_matches s2,
                            callback_events =
                              (if has_callback
                               then events2 s2
                                      @ [complete_event (files_completed s2) total_files
                                           (length (all_matches s2))]
                               else events2 s2),
                            enumerated = files,
                            handed_to_pool = submitted s2\<rparr>)))"


section \<open>Auxiliary notions for the properties\<close>

text \<open>
  The Luhn algorithm in the words of the specification, over the list of digit values:
  every digit whose index has the parity of the length is doubled, 9 is subtracted from a
  doubled digit above 9, and the sum must be divisible by 10; the length is between 13
  and 19.
\<close>
definition luhn_transform :: "nat \<Rightarrow> nat \<Rightarrow> int \<Rightarrow> int" where
  "luhn_transform n i d = (if i mod 2 = n mod 2 then (if 2 * d > 9 then 2 * d - 9 else 2 * d) else d)"

definition luhn_spec :: "int list \<Rightarrow> bool" where
  "luhn_spec ds =
     (13 \<le> length ds \<and> length ds \<le> 19
      \<and> sum_list (map (\<lambda>i. luhn_transform (length ds) i (ds ! i)) [0..<length ds]) mod 10 = 0)"

definition digit_values :: "string \<Rightarrow> int list" where
  "digit_values s = map (\<lambda>c. int (of_char c) - 48) (filter ascii_digit s)"

definition plain_digits :: "string \<Rightarrow> bool" where
  "plain_digits s = list_all (\<lambda>c. isdigit c \<longrightarrow> ascii_digit c) s"

text \<open>Patterns without a word boundary, and matchers whose matches depend only on the text they consume.\<close>

fun wbfree :: "regex \<Rightarrow> bool" where
  "wbfree Eps = True"
| "wbfree (Cls P) = True"
| "wbfree (Seq a b) = (wbfree a \<and> wbfree b)"
| "wbfree (Alt a b) = (wbfree a \<and> wbfree b)"
| "wbfree (Rep r n m) = wbfree r"
| "wbfree (Many P n) = True"
| "wbfree WordB = False"

definition local_f :: "(mstate \<Rightarrow> mstate list) \<Rightarrow> bool" where
  "local_f f =
     (\<forall>p s p' s'. (p', s') \<in> set (f (p, s)) \<longrightarrow>
        (\<exists>w. s = w @ s' \<and> (\<forall>q t. \<exists>q'. (q', t) \<in> set (f (q, w @ t)))))"

text \<open>The value of a key of an event dictionary.\<close>

definition event_field :: "pyval \<Rightarrow> string \<Rightarrow> pyval option" where
  "event_field e k = (case e of PDict d \<Rightarrow> map_of d k | _ \<Rightarrow> None)"

section \<open>Concrete inputs\<close>

text \<open>
  The configuration with the defaults of \<open>config.get\<close>, and stand-ins for the digest and
  for the text of a float in the examples; the theorems hold for every digest function
  and every float text.
\<close>

definition default_config :: config where
  "default_config =
     \<lparr>require_luhn_validation = True,
      minimum_confidence_score = 7 / 10,
      context_window_chars = 100,
      exclude_masked_patterns = True,
      show_last4_only = True,
      allow_full_pan_retention = False,
      redact_pan = True\<rparr>"

definition keep_masked_config :: config where
  "keep_masked_config = default_config\<lparr>exclude_masked_patterns := False\<rparr>"

definition example_digest :: "string \<Rightarrow> string" where
  "example_digest s = ''sha256 of '' @ s"

definition example_float_text :: "rat \<Rightarrow> string" where
  "example_float_text x = show_int \<lfloor>x\<rfloor> @ ''.0''"

definition visa_match :: PANMatch where
  "visa_match =
     \<lparr>file_path = ''test.txt'', line_number = 1, column_start = 20, column_end = 36,
      raw_match = [], masked_match = ''************0366'', card_type = VISA,
      luhn_valid = True, confidence_score = 19 / 20,
      context_before = ''Credit card number: '', context_after = [], is_masked = False\<rparr>"

text \<open>
  A date parser that accepts every timestamp and a server that accepts every report, and
  a report whose only finding has the digit run 2021000000000001, which passes the Luhn
  check, in its context.
\<close>

definition example_iso_date :: "string \<Rightarrow> string option" where
  "example_iso_date t = Some (take 10 t)"

definition accepting_server :: "pyval \<Rightarrow> pyval option" where
  "accepting_server body = Some (PDict [(''report_id'', PStr ''r-1'')])"

definition dated_run_report :: pydict where
  "dated_run_report =
     [(''metadata'',
         PDict [(''report_version'', PStr ''1.0''),
                (''agent_id'', PStr ''pci-agent-1''),
                (''scan_id'', PStr ''scan-1''),
                (''timestamp'', PStr ''2024-01-01T00:00:00+00:00''),
                (''operator'', PStr ''alice''),
                (''report_hash'', PStr ''abc'')]),
      (''scan_parameters'', PDict [(''directories_scanned'', PInt 1)]),
      (''scan_results'',
         PDict [(''summary'', PDict [(''total_files_scanned'', PInt 1)]),
                (''findings'',
                   PList [PDict [(''file_path'', PStr ''orders.txt''),
                                 (''context'',
                                    PDict [(''before'', PStr ''ref 2021000000000001 card ''),
                                           (''after'', PStr [])]),
                                 (''pan_data'',
                                    PDict [(''masked_number'', PStr ''************0366''),
                                           (''hash'', PNone)])]])]),
      (''compliance_notes'', PDict [])]"


text \<open>The same report with a card number in the context of its finding.\<close>

definition card_run_report :: pydict where
  "card_run_report =
     [(''metadata'',
         PDict [(''report_version'', PStr ''1.0''),
                (''agent_id'', PStr ''pci-agent-1''),
                (''scan_id'', PStr ''scan-1''),
                (''timestamp'', PStr ''2024-01-01T00:00:00+00:00''),
                (''operator'', PStr ''alice''),
                (''report_hash'', PStr ''abc'')]),
      (''scan_parameters'', PDict [(''directories_scanned'', PInt 1)]),
      (''scan_results'',
         PDict [(''summary'', PDict [(''total_files_scanned'', PInt 1)]),
                (''findings'',
                   PList [PDict [(''file_path'', PStr ''cards.txt''),
                                 (''context'',
                                    PDict [(''before'', PStr ''4532015112830366 ''),
                                           (''after'', PStr [])]),
                                 (''pan_data'',
                                    PDict [(''masked_number'', PStr ''************0366''),
                                           (''hash'', PNone)])]])]),
      (''compliance_notes'', PDict [])]"

text \<open>
  Two roots with one file each and a limit of one file; a file matcher, a scanner of
  files that finds nothing, a pool in which the first future completes first, and three
  courses of the stop flag: never set, set before its first reading, set after its
  first reading.
\<close>

definition two_roots :: "fs_node list" where
  "two_roots =
     [FsDir ''/data/a'' [FsFile ''/data/a/one.txt''],
      FsDir ''/data/b'' [FsFile ''/data/b/two.txt'']]"

definition one_file_limit :: scanner_config where
  "one_file_limit =
     \<lparr>max_files_per_scan = 1, max_recursion_depth = 8, concurrency = 4, exclude_patterns = []\<rparr>"

definition literal_fnmatch :: "string \<Rightarrow> string \<Rightarrow> bool" where
  "literal_fnmatch name pattern = (name = pattern)"

definition no_findings :: "string \<Rightarrow> PANMatch list" where
  "no_findings path = []"

definition first_done :: "string list \<Rightarrow> nat" where
  "first_done in_flight = 0"

definition zero_stats :: scan_stats where
  "zero_stats =
     \<lparr>files_scanned = 0, files_skipped = 0, directories_scanned = 0, matches_found = 0,
      errors = 0\<rparr>"

definition never_stopped :: "nat \<Rightarrow> bool" where
  "never_stopped i = False"

definition stopped_at_once :: "nat \<Rightarrow> bool" where
  "stopped_at_once i = True"

definition stopped_after_first_read :: "nat \<Rightarrow> bool" where
  "stopped_after_first_read i = (1 \<le> i)"


section \<open>Properties of the detection engine\<close>

subsection \<open>Masking\<close>

lemma py_slice_last4: "4 \<le> length s \<Longrightarrow> py_slice s (Some (- 4)) None = drop (length s - 4) s"
  by (simp add: py_slice_def slice_bound_def nat_diff_distrib')

lemma star_not_digit: "\<not> isdigit CHR ''*''"
  by (simp add: isdigit_def ascii_digit_def)

lemma digit_run_in_masked:
  assumes "replicate k CHR ''*'' @ tl4 = ps @ w @ ss" and "\<forall>c\<in>set w. isdigit c"
  shows "length w \<le> length tl4"
proof (cases "w = []")
  case True
  then show ?thesis by simp
next
  case False
  then obtain c w' where w: "w = c # w'" by (cases w) auto
  have "k \<le> length ps"
  proof (rule ccontr)
    assume "\<not> k \<le> length ps"
    then have lt: "length ps < k" by simp
    have "(replicate k CHR ''*'' @ tl4) ! length ps = CHR ''*''"
      using lt by (simp add: nth_append)
    moreover have "(ps @ w @ ss) ! length ps = c" using w by simp
    ultimately have "c = CHR ''*''" using assms(1) by simp
    then show False using assms(2) w star_not_digit by auto
  qed
  have "length (replicate k CHR ''*'' @ tl4) = length (ps @ w @ ss)" using assms(1) by simp
  then show ?thesis using \<open>k \<le> length ps\<close> by simp
qed

text \<open>
  Claim C5. For a string \<open>pan\<close> of length \<open>n\<close>, \<open>mask_pan\<close> returns \<open>n - 4\<close> stars followed by
  the last four characters when \<open>show_last4\<close> is set and \<open>n\<close> is at least 4, \<open>n\<close> stars
  when \<open>show_last4\<close> is not set, and \<open>n\<close> stars when \<open>n\<close> is below 4. Hence every run of
  digits in a masked rendering has at most four characters.
\<close>

theorem mask_pan_spec:
  "(show_last4 \<and> 4 \<le> length pan \<longrightarrow>
      mask_pan pan show_last4 = replicate (length pan - 4) CHR ''*'' @ drop (length pan - 4) pan)
   \<and> (\<not> show_last4 \<longrightarrow> mask_pan pan show_last4 = replicate (length pan) CHR ''*'')
   \<and> (length pan < 4 \<longrightarrow> mask_pan pan show_last4 = replicate (length pan) CHR ''*'')
   \<and> (\<forall>ps w ss. mask_pan pan show_last4 = ps @ w @ ss \<and> (\<forall>c\<in>set w. isdigit c)
          \<longrightarrow> length w \<le> 4)"
proof -
  have run: "length w \<le> 4"
    if eq: "mask_pan pan show_last4 = ps @ w @ ss" and dg: "\<forall>c\<in>set w. isdigit c" for ps w ss
  proof (cases "show_last4 \<and> 4 \<le> length pan")
    case True
    then have "replicate (length pan - 4) CHR ''*'' @ drop (length pan - 4) pan = ps @ w @ ss"
      using eq by (simp add: mask_pan_def py_slice_last4)
    from digit_run_in_masked[OF this dg] show ?thesis using True by simp
  next
    case False
    then have "replicate (length pan) CHR ''*'' @ [] = ps @ w @ ss"
      using eq by (cases "length pan < 4"; cases show_last4) (simp_all add: mask_pan_def)
    from digit_run_in_masked[OF this dg] show ?thesis by simp
  qed
  have a: "show_last4 \<and> 4 \<le> length pan \<longrightarrow>
      mask_pan pan show_last4 = replicate (length pan - 4) CHR ''*'' @ drop (length pan - 4) pan"
    by (simp add: mask_pan_def py_slice_last4)
  have b: "\<not> show_last4 \<longrightarrow> mask_pan pan show_last4 = replicate (length pan) CHR ''*''"
    by (simp add: mask_pan_def)
  have c: "length pan < 4 \<longrightarrow> mask_pan pan show_last4 = replicate (length pan) CHR ''*''"
    by (simp add: mask_pan_def)
  from a b c run show ?thesis by blast
qed

theorem mask_pan_spec_witness:
  "mask_pan ''4532015112830366'' True = ''************0366''
   \<and> mask_pan ''123'' True = ''***''
   \<and> mask_pan ''4532015112830366'' False = ''****************''"
  using mask_pan_spec[of True "''4532015112830366''"] mask_pan_spec[of True "''123''"]
    mask_pan_spec[of False "''4532015112830366''"]
  by (simp add: numeral_eq_Suc)


subsection \<open>The Luhn check\<close>

lemma sum_list_upt_Suc_shift:
  "sum_list (map f [0..<Suc n]) = f 0 + sum_list (map (\<lambda>j. f (Suc j)) [0..<n])"
proof -
  have "[0..<Suc n] = 0 # map Suc [0..<n]"
    by (simp add: upt_conv_Cons map_Suc_upt del: upt_Suc)
  then show ?thesis by (simp add: comp_def del: upt_Suc)
qed

lemma luhn_loop_sum:
  "luhn_loop par i acc ds =
     acc + sum_list (map (\<lambda>j. if (i + j) mod 2 = par
                               then (if 2 * (ds ! j) > 9 then 2 * (ds ! j) - 9 else 2 * (ds ! j))
                               else ds ! j) [0..<length ds])"
proof (induction ds arbitrary: i acc)
  case Nil
  then show ?case by simp
next
  case (Cons d ds)
  show ?case
    by (simp add: Cons.IH sum_list_upt_Suc_shift mult.commute del: upt_Suc cong: if_cong)
qed

lemma digits_of_plain: "plain_digits x \<Longrightarrow> digits_of x = Inr (digit_values x)"
  by (induction x) (auto simp add: plain_digits_def digit_values_def isdigit_def int_of_char_def)

lemma luhn_check_plain:
  assumes "plain_digits x"
  shows "luhn_check x = Inr (luhn_spec (digit_values x))"
proof -
  let ?ds = "digit_values x"
  have "luhn_loop (length ?ds mod 2) 0 0 ?ds
         = sum_list (map (\<lambda>i. luhn_transform (length ?ds) i (?ds ! i)) [0..<length ?ds])"
    by (simp add: luhn_loop_sum luhn_transform_def eq_commute[of "length ?ds mod 2"])
  then show ?thesis
    using digits_of_plain[OF assms] by (auto simp add: luhn_check_def luhn_spec_def)
qed

lemma plain_digits_filter: "plain_digits (filter ascii_digit x)"
  by (simp add: plain_digits_def list_all_iff)

lemma luhn_check_strip:
  assumes "plain_digits x"
  shows "luhn_check (filter ascii_digit x) = luhn_check x"
  by (simp add: luhn_check_plain[OF assms] luhn_check_plain[OF plain_digits_filter] digit_values_def)

lemma luhn_check_length:
  assumes "plain_digits x" and "length (filter ascii_digit x) < 13 \<or> length (filter ascii_digit x) > 19"
  shows "luhn_check x = Inr False"
  using assms(2) by (auto simp add: luhn_check_plain[OF assms(1)] luhn_spec_def digit_values_def)

lemma digits_of_superscript:
  assumes "c \<in> set x" and "c \<in> {CHR 0xB2, CHR 0xB3, CHR 0xB9}"
  shows "digits_of x = Inl ValueError"
  using assms
proof (induction x)
  case Nil
  then show ?case by simp
next
  case (Cons d ds)
  show ?case
  proof (cases "d = c")
    case True
    then show ?thesis using Cons.prems(2)
      by (auto simp add: isdigit_def int_of_char_def ascii_digit_def)
  next
    case False
    then have "digits_of ds = Inl ValueError" using Cons by simp
    then show ?thesis
      by (cases "int_of_char d") (auto simp add: int_of_char_def split: if_splits)
  qed
qed

lemma luhn_check_superscript:
  assumes "c \<in> set x" and "c \<in> {CHR 0xB2, CHR 0xB3, CHR 0xB9}"
  shows "luhn_check x = Inl ValueError"
  by (simp add: luhn_check_def digits_of_superscript[OF assms])

text \<open>
  Claim C4. \<open>luhn_check\<close> is claimed to return false whenever fewer than 13 digits are
  present and to give the same answer on a string and on the string with its non-digits
  removed. On the decimal digits the lemmas above prove this. The filter of the source is
  \<open>str.isdigit\<close>, which also keeps the superscript digits, and \<open>int\<close> raises
  \<open>ValueError\<close> on those: on the one-character string U+00B2, and on a valid card number
  followed by U+00B2, the call raises instead of returning.
\<close>

theorem luhn_check_raises_value_error:
  "luhn_check [CHR 0xB2] = Inl ValueError
   \<and> luhn_check (''4532015112830366'' @ [CHR 0xB2]) = Inl ValueError
   \<and> luhn_check ''4532015112830366'' = Inr True"
  by code_simp


subsection \<open>Matching\<close>

lemma collect_Inr_set:
  "collect xs = Inr ys \<Longrightarrow> m \<in> set ys \<Longrightarrow> \<exists>a. Inr a \<in> set xs \<and> m \<in> set a"
proof (induction xs arbitrary: ys)
  case Nil
  then show ?case by simp
next
  case (Cons x xs)
  show ?case
  proof (cases x)
    case (Inl e)
    then show ?thesis using Cons.prems by simp
  next
    case (Inr a)
    then obtain b where b: "collect xs = Inr b" "ys = a @ b"
      using Cons.prems(1) by (cases "collect xs") auto
    show ?thesis
    proof (cases "m \<in> set a")
      case True
      then show ?thesis using Inr by auto
    next
      case False
      then have "m \<in> set b" using Cons.prems(2) b(2) by simp
      from Cons.IH[OF b(1) this] show ?thesis by auto
    qed
  qed
qed

lemma collect_total:
  "(\<And>x. x \<in> set xs \<Longrightarrow> \<exists>a. x = Inr a) \<Longrightarrow> \<exists>ys. collect xs = Inr ys"
proof (induction xs)
  case Nil
  then show ?case by simp
next
  case (Cons x xs)
  then obtain a where "x = Inr a" by auto
  moreover obtain ys where "collect xs = Inr ys" using Cons by auto
  ultimately show ?case by simp
qed

lemma first_match_Cls:
  "first_match (Cls P) (p, c # cs) = (if P c then Some 1 else None)"
  by (simp add: first_match_def)

lemma sub_from_Cls_empty: "sub_from (Cls P) [] p s = filter (\<lambda>c. \<not> P c) s"
  by (induction s arbitrary: p) (simp_all add: first_match_Cls)

lemma re_sub_nondigit: "re_sub nondigit [] s = filter ascii_digit s"
  by (simp add: re_sub_def nondigit_def sub_from_Cls_empty)

lemma first_match_le: "first_match r (p, s) = Some n \<Longrightarrow> n \<le> length s"
  by (auto simp add: first_match_def split: list.splits)

lemma finditer_from_spans:
  "(a, b) \<in> set (finditer_from r pos p s) \<Longrightarrow> pos \<le> a \<and> a < b \<and> b \<le> pos + length s"
proof (induction r pos p s rule: finditer_from.induct)
  case (1 r pos p)
  then show ?case by simp
next
  case (2 r pos p c cs)
  show ?case
  proof (cases "first_match r (p, c # cs)")
    case None
    then show ?thesis using 2 by auto
  next
    case (Some n)
    show ?thesis
    proof (cases "n = 0")
      case True
      then show ?thesis using 2 Some by auto
    next
      case False
      have le: "n \<le> length (c # cs)" using first_match_le[OF Some] .
      from "2.prems" Some False
      consider "(a, b) = (pos, pos + n)"
        | "(a, b) \<in> set (finditer_from r (pos + n) (Some ((c # cs) ! (n - 1))) (drop n (c # cs)))"
        by auto
      then show ?thesis
      proof cases
        case 1
        then show ?thesis using False le by auto
      next
        case 2
        from "2.IH"(3)[OF Some False 2] show ?thesis using le by auto
      qed
    qed
  qed
qed

lemma finditer_spans:
  "(a, b) \<in> set (finditer r s) \<Longrightarrow> a < b \<and> b \<le> length s"
  using finditer_from_spans[of a b r 0 None s] by (simp add: finditer_def)

lemma rep_from_local:
  assumes "local_f f"
  shows "local_f (rep_from f n m)"
proof (induction m arbitrary: n)
  case 0
  show ?case by (auto simp add: local_f_def split: if_splits)
next
  case (Suc m)
  show ?case unfolding local_f_def
  proof (intro allI impI)
    fix p s p' s'
    assume mem: "(p', s') \<in> set (rep_from f n (Suc m) (p, s))"
    then consider (stop) "n = 0" "(p', s') = (p, s)"
      | (iter) st1 where "st1 \<in> set (f (p, s))" "(p', s') \<in> set (rep_from f (n - 1) m st1)"
      by (auto split: if_splits)
    then show "\<exists>w. s = w @ s' \<and> (\<forall>q t. \<exists>q'. (q', t) \<in> set (rep_from f n (Suc m) (q, w @ t)))"
    proof cases
      case stop
      then show ?thesis by (intro exI[of _ "[]"]) auto
    next
      case iter
      obtain p1 s1 where st1: "st1 = (p1, s1)" by (cases st1)
      from assms iter(1) st1 obtain w1 where
        w1: "s = w1 @ s1" "\<forall>q t. \<exists>q'. (q', t) \<in> set (f (q, w1 @ t))"
        unfolding local_f_def by blast
      from Suc[of "n - 1"] iter(2) st1 obtain w2 where
        w2: "s1 = w2 @ s'" "\<forall>q t. \<exists>q'. (q', t) \<in> set (rep_from f (n - 1) m (q, w2 @ t))"
        unfolding local_f_def by blast
      have "\<exists>q'. (q', t) \<in> set (rep_from f n (Suc m) (q, (w1 @ w2) @ t))" for q t
      proof -
        from w1(2) obtain q1 where q1: "(q1, w2 @ t) \<in> set (f (q, w1 @ w2 @ t))" by blast
        from w2(2) obtain q' where "(q', t) \<in> set (rep_from f (n - 1) m (q1, w2 @ t))" by blast
        with q1 show ?thesis by (intro exI[of _ q']) force
      qed
      then show ?thesis using w1(1) w2(1) by (intro exI[of _ "w1 @ w2"]) simp
    qed
  qed
qed

lemma snd_advance: "snd (advance j st) = drop j (snd st)"
  by (simp add: advance_def)

lemma ms_local: "wbfree r \<Longrightarrow> local_f (ms r)"
proof (induction r)
  case Eps
  show ?case by (auto simp add: local_f_def)
next
  case (Cls P)
  show ?case unfolding local_f_def
  proof (intro allI impI)
    fix p s p' s'
    assume "(p', s') \<in> set (ms (Cls P) (p, s))"
    then obtain c where "s = c # s'" "P c" by (auto split: list.splits if_splits)
    then show "\<exists>w. s = w @ s' \<and> (\<forall>q t. \<exists>q'. (q', t) \<in> set (ms (Cls P) (q, w @ t)))"
      by (intro exI[of _ "[c]"]) simp
  qed
next
  case (Seq r1 r2)
  then have l1: "local_f (ms r1)" and l2: "local_f (ms r2)" by simp_all
  show ?case unfolding local_f_def
  proof (intro allI impI)
    fix p s p' s'
    assume "(p', s') \<in> set (ms (Seq r1 r2) (p, s))"
    then obtain p1 s1 where a: "(p1, s1) \<in> set (ms r1 (p, s))" and b: "(p', s') \<in> set (ms r2 (p1, s1))"
      by auto
    from l1 a obtain w1 where w1: "s = w1 @ s1" "\<forall>q t. \<exists>q'. (q', t) \<in> set (ms r1 (q, w1 @ t))"
      unfolding local_f_def by blast
    from l2 b obtain w2 where w2: "s1 = w2 @ s'" "\<forall>q t. \<exists>q'. (q', t) \<in> set (ms r2 (q, w2 @ t))"
      unfolding local_f_def by blast
    have "\<exists>q'. (q', t) \<in> set (ms (Seq r1 r2) (q, (w1 @ w2) @ t))" for q t
    proof -
      from w1(2) obtain q1 where q1: "(q1, w2 @ t) \<in> set (ms r1 (q, w1 @ w2 @ t))" by blast
      from w2(2) obtain q' where "(q', t) \<in> set (ms r2 (q1, w2 @ t))" by blast
      with q1 show ?thesis by (intro exI[of _ q']) force
    qed
    then show "\<exists>w. s = w @ s' \<and> (\<forall>q t. \<exists>q'. (q', t) \<in> set (ms (Seq r1 r2) (q, w @ t)))"
      using w1(1) w2(1) by (intro exI[of _ "w1 @ w2"]) simp
  qed
next
  case (Alt r1 r2)
  then have l1: "local_f (ms r1)" and l2: "local_f (ms r2)" by simp_all
  show ?case unfolding local_f_def
  proof (intro allI impI)
    fix p s p' s'
    assume "(p', s') \<in> set (ms (Alt r1 r2) (p, s))"
    then consider "(p', s') \<in> set (ms r1 (p, s))" | "(p', s') \<in> set (ms r2 (p, s))" by auto
    then show "\<exists>w. s = w @ s' \<and> (\<forall>q t. \<exists>q'. (q', t) \<in> set (ms (Alt r1 r2) (q, w @ t)))"
    proof cases
      case 1
      with l1 obtain w where "s = w @ s'" "\<forall>q t. \<exists>q'. (q', t) \<in> set (ms r1 (q, w @ t))"
        unfolding local_f_def by blast
      then show ?thesis by (intro exI[of _ w]) auto
    next
      case 2
      with l2 obtain w where "s = w @ s'" "\<forall>q t. \<exists>q'. (q', t) \<in> set (ms r2 (q, w @ t))"
        unfolding local_f_def by blast
      then show ?thesis by (intro exI[of _ w]) auto
    qed
  qed
next
  case (Rep r n m)
  then have "local_f (ms r)" by simp
  from rep_from_local[OF this] have "local_f (rep_from (ms r) n m)" .
  then show ?case by (simp add: local_f_def)
next
  case (Many P n)
  show ?case unfolding local_f_def
  proof (intro allI impI)
    fix p s p' s'
    assume "(p', s') \<in> set (ms (Many P n) (p, s))"
    then obtain j where j: "n \<le> j" "j \<le> length (takeWhile P s)" "(p', s') = advance j (p, s)"
      by auto
    have s': "s' = drop j s" using j(3) snd_advance[of j "(p, s)"] by (metis snd_conv)
    have jl: "j \<le> length s" using j(2) length_takeWhile_le[of P s] by simp
    have tk: "take j s = take j (takeWhile P s)"
      using j(2) by (metis append_eq_conv_conj takeWhile_dropWhile_id take_append min.absorb2 take_all_iff length_take diff_is_0_eq' take0 append_Nil2 min.commute)
    have allP: "\<forall>x\<in>set (take j s). P x"
      unfolding tk using set_takeWhileD by (metis in_set_takeD)
    have "\<exists>q'. (q', t) \<in> set (ms (Many P n) (q, take j s @ t))" for q t
    proof -
      have "takeWhile P (take j s @ t) = take j s @ takeWhile P t"
        using allP by (simp add: takeWhile_append2)
      then have len: "j \<le> length (takeWhile P (take j s @ t))" using jl by simp
      have "snd (advance j (q, take j s @ t)) = t" using jl by (simp add: snd_advance)
      then have "advance j (q, take j s @ t) = (fst (advance j (q, take j s @ t)), t)"
        by (metis prod.collapse)
      moreover have "advance j (q, take j s @ t) \<in> set (ms (Many P n) (q, take j s @ t))"
      proof -
        have "j \<in> set (rev [n..<Suc (length (takeWhile P (take j s @ t)))])"
          using j(1) len by (simp del: upt_Suc)
        then show ?thesis unfolding ms.simps set_map snd_conv by (rule imageI)
      qed
      ultimately show ?thesis by metis
    qed
    then show "\<exists>w. s = w @ s' \<and> (\<forall>q t. \<exists>q'. (q', t) \<in> set (ms (Many P n) (q, w @ t)))"
      using s' by (intro exI[of _ "take j s"]) simp
  qed
next
  case WordB
  then show ?case by simp
qed

lemma ms_nonempty_extend:
  assumes "wbfree r" and "ms r (p, s) \<noteq> []"
  shows "ms r (q, s @ v) \<noteq> []"
proof -
  from assms(2) obtain p' s' where mem: "(p', s') \<in> set (ms r (p, s))"
    by (cases "ms r (p, s)") auto
  from ms_local[OF assms(1)] mem obtain w where
    w: "s = w @ s'" "\<forall>q t. \<exists>q'. (q', t) \<in> set (ms r (q, w @ t))"
    unfolding local_f_def by blast
  from w(2) obtain q' where "(q', s' @ v) \<in> set (ms r (q, w @ s' @ v))" by blast
  then show ?thesis using w(1) by auto
qed

lemma search_from_first: "ms r (p, s) \<noteq> [] \<Longrightarrow> search_from r p s"
  by (cases s) simp_all

lemma search_from_append:
  assumes "wbfree r" and "ms r (p, s2) \<noteq> []"
  shows "search_from r q (s1 @ s2 @ v)"
proof (induction s1 arbitrary: q)
  case Nil
  show ?case using search_from_first[OF ms_nonempty_extend[OF assms, of q v]] by simp
next
  case (Cons c s1)
  then show ?case by simp
qed

lemma search_from_split:
  "search_from r p s \<Longrightarrow> \<exists>s1 s2 p'. s = s1 @ s2 \<and> ms r (p', s2) \<noteq> []"
proof (induction s arbitrary: p)
  case Nil
  then show ?case by auto
next
  case (Cons c cs)
  show ?case
  proof (cases "ms r (p, c # cs) \<noteq> []")
    case True
    then show ?thesis
      by - (rule exI[of _ "[]"], rule exI[of _ "c # cs"], rule exI[of _ p], simp)
  next
    case False
    then have "search_from r (Some c) cs" using Cons.prems by simp
    from Cons.IH[OF this] obtain s1 s2 p' where "cs = s1 @ s2" "ms r (p', s2) \<noteq> []" by blast
    then show ?thesis
      by - (rule exI[of _ "c # s1"], rule exI[of _ s2], rule exI[of _ p'], simp)
  qed
qed

lemma search_sublist:
  assumes "wbfree r" and "search r win"
  shows "search r (u @ win @ v)"
proof -
  from search_from_split[OF assms(2)[unfolded search_def]]
  obtain s1 s2 p' where sp: "win = s1 @ s2" "ms r (p', s2) \<noteq> []" by blast
  have "search_from r None ((u @ s1) @ s2 @ v)"
    by (rule search_from_append[OF assms(1) sp(2)])
  then show ?thesis using sp(1) by (simp add: search_def)
qed

lemma masked_regex_wbfree: "r \<in> set masked_regex \<Longrightarrow> wbfree r"
  by (auto simp add: masked_regex_def times_def lit_def digit_def)

lemma matches_masked_pattern_sublist:
  "matches_masked_pattern win \<Longrightarrow> matches_masked_pattern (u @ win @ v)"
  unfolding matches_masked_pattern_def list_ex_iff
  using search_sublist masked_regex_wbfree by blast


subsection \<open>Scanning a text\<close>


lemma luhn_check_of_digits:
  assumes "\<forall>c\<in>set s. ascii_digit c"
  shows "\<exists>b. luhn_check s = Inr b"
proof -
  have "plain_digits s" using assms by (simp add: plain_digits_def list_all_iff)
  from luhn_check_plain[OF this] show ?thesis by blast
qed

lemma scan_hit_total: "\<exists>ys. scan_hit cfg path n line ctype sp = Inr ys"
proof -
  obtain b where b: "luhn_check (re_sub nondigit [] (span_text line sp)) = Inr b"
    using luhn_check_of_digits[of "re_sub nondigit [] (span_text line sp)"]
    by (auto simp add: re_sub_nondigit)
  show ?thesis
    unfolding scan_hit_def Let_def b by simp
qed

lemma scan_line_total: "\<exists>ys. scan_line cfg path n line = Inr ys"
proof (cases "is_masked_number cfg line")
  case True
  then show ?thesis by (simp add: scan_line_def)
next
  case False
  have inner: "\<exists>a. collect (map (scan_hit cfg path n line ctype) sps) = Inr a" for ctype sps
    by (rule collect_total) (use scan_hit_total in auto)
  have "\<exists>ys. collect (map (\<lambda>(ctype, pattern).
              collect (map (scan_hit cfg path n line ctype) (finditer pattern line)))
            compiled_patterns) = Inr ys"
    by (rule collect_total) (use inner in auto)
  then show ?thesis using False by (simp add: scan_line_def)
qed

lemma scan_text_total: "\<exists>found. scan_text cfg text path = Inr found"
  unfolding scan_text_def Let_def
  by (rule collect_total) (use scan_line_total in auto)

lemma scan_hit_mem:
  assumes "scan_hit cfg path n line ctype sp = Inr ys" and "m \<in> set ys"
  shows "raw_match m = (if allow_full_pan_retention cfg then span_text line sp else [])"
    and "line_number m = n" and "column_start m = fst sp" and "column_end m = snd sp"
    and "is_masked m = is_masked_number cfg
           (py_slice line (Some (max 0 (int (fst sp) - context_window_chars cfg))) (Some (int (fst sp)))
            @ span_text line sp
            @ py_slice line (Some (int (snd sp)))
                (Some (min (int (length line)) (int (snd sp) + context_window_chars cfg))))"
    and "\<exists>x. py_slice line (Some (max 0 (int (fst sp) - context_window_chars cfg))) (Some (int (fst sp)))
           = x @ context_before m"
    and "\<exists>y. py_slice line (Some (int (snd sp)))
                (Some (min (int (length line)) (int (snd sp) + context_window_chars cfg)))
           = context_after m @ y"
    and "masked_match m = mask_pan (re_sub nondigit [] (span_text line sp)) (show_last4_only cfg)"
proof -
  obtain b where b: "luhn_check (re_sub nondigit [] (span_text line sp)) = Inr b"
    using luhn_check_of_digits[of "re_sub nondigit [] (span_text line sp)"]
    by (auto simp add: re_sub_nondigit)
  let ?cb = "py_slice line (Some (max 0 (int (fst sp) - context_window_chars cfg))) (Some (int (fst sp)))"
  let ?ca = "py_slice line (Some (int (snd sp)))
                (Some (min (int (length line)) (int (snd sp) + context_window_chars cfg)))"
  have suf: "\<exists>x. ?cb = x @ (if length ?cb > 50 then py_slice ?cb (Some (- 50)) None else ?cb)"
  proof (cases "length ?cb > 50")
    case True
    have "py_slice ?cb (Some (- 50)) None = drop (length ?cb - 50) ?cb"
      using True by (simp add: py_slice_def[of ?cb] slice_bound_def nat_diff_distrib')
    then have "?cb = take (length ?cb - 50) ?cb @ py_slice ?cb (Some (- 50)) None" by simp
    then show ?thesis unfolding if_P[OF True] by (rule exI)
  next
    case False
    then show ?thesis by simp
  qed
  have pre: "\<exists>y. ?ca = (if length ?ca > 50 then py_slice ?ca None (Some 50) else ?ca) @ y"
  proof (cases "length ?ca > 50")
    case True
    have "py_slice ?ca None (Some 50) = take 50 ?ca"
      using True by (simp add: py_slice_def[of ?ca] slice_bound_def)
    then have "?ca = py_slice ?ca None (Some 50) @ drop 50 ?ca" by simp
    then show ?thesis unfolding if_P[OF True] by (rule exI)
  next
    case False
    then show ?thesis by simp
  qed
  define rec where "rec = \<lparr>file_path = path,
         line_number = n,
         column_start = fst sp,
         column_end = snd sp,
         raw_match = (if allow_full_pan_retention cfg then span_text line sp else []),
         masked_match = mask_pan (re_sub nondigit [] (span_text line sp)) (show_last4_only cfg),
         card_type = ctype,
         luhn_valid = b,
         confidence_score = calculate_confidence (span_text line sp) ctype b
            (?cb @ span_text line sp @ ?ca) (is_masked_number cfg (?cb @ span_text line sp @ ?ca)),
         context_before = (if length ?cb > 50 then py_slice ?cb (Some (- 50)) None else ?cb),
         context_after = (if length ?ca > 50 then py_slice ?ca None (Some 50) else ?ca),
         is_masked = is_masked_number cfg (?cb @ span_text line sp @ ?ca)\<rparr>"
  have "ys = [] \<or> ys = [rec]"
    using assms(1) unfolding scan_hit_def Let_def b
    by (auto simp add: rec_def split: if_split_asm)
  then have m: "m = rec" using assms(2) by auto
  show "raw_match m = (if allow_full_pan_retention cfg then span_text line sp else [])"
    and "line_number m = n" and "column_start m = fst sp" and "column_end m = snd sp"
    and "is_masked m = is_masked_number cfg (?cb @ span_text line sp @ ?ca)"
    and "masked_match m = mask_pan (re_sub nondigit [] (span_text line sp)) (show_last4_only cfg)"
    by (simp_all add: m rec_def)
  show "\<exists>x. ?cb = x @ context_before m" using suf by (simp add: m rec_def)
  show "\<exists>y. ?ca = context_after m @ y" using pre by (simp add: m rec_def)
qed

lemma scan_line_mem:
  assumes "scan_line cfg path n line = Inr xs" and "m \<in> set xs"
  shows "\<not> is_masked_number cfg line
     \<and> (\<exists>ctype pattern sp ys. (ctype, pattern) \<in> set compiled_patterns
           \<and> sp \<in> set (finditer pattern line)
           \<and> scan_hit cfg path n line ctype sp = Inr ys \<and> m \<in> set ys)"
proof -
  have nm: "\<not> is_masked_number cfg line"
    using assms by (auto simp add: scan_line_def split: if_splits)
  then have c: "collect (map (\<lambda>(ctype, pattern).
              collect (map (scan_hit cfg path n line ctype) (finditer pattern line)))
            compiled_patterns) = Inr xs"
    using assms(1) by (simp add: scan_line_def)
  from collect_Inr_set[OF c assms(2)] obtain a where
    a1: "Inr a \<in> set (map (\<lambda>(ctype, pattern).
              collect (map (scan_hit cfg path n line ctype) (finditer pattern line)))
            compiled_patterns)" and ma: "m \<in> set a"
    by blast
  from a1 obtain ctype pattern where
    cp: "(ctype, pattern) \<in> set compiled_patterns"
    and a: "collect (map (scan_hit cfg path n line ctype) (finditer pattern line)) = Inr a"
    by (auto simp add: image_iff split: prod.splits dest: sym)
  from collect_Inr_set[OF a ma] obtain ys where
    y1: "Inr ys \<in> set (map (scan_hit cfg path n line ctype) (finditer pattern line))"
    and my: "m \<in> set ys"
    by blast
  from y1 obtain sp where
    "sp \<in> set (finditer pattern line)" "scan_hit cfg path n line ctype sp = Inr ys"
    by (auto simp add: image_iff dest: sym)
  with nm cp my show ?thesis by blast
qed

lemma scan_text_mem:
  assumes "scan_text cfg text path = Inr found" and "m \<in> set found"
  shows "\<exists>n xs. 1 \<le> n \<and> n \<le> length (split_lines text)
            \<and> scan_line cfg path n (split_lines text ! (n - 1)) = Inr xs \<and> m \<in> set xs"
proof -
  let ?lines = "split_lines text"
  from assms(1) have c: "collect (map (\<lambda>(line_num, line). scan_line cfg path line_num line)
                      (zip [1..<Suc (length ?lines)] ?lines)) = Inr found"
    by (simp add: scan_text_def Let_def)
  from collect_Inr_set[OF c assms(2)] obtain xs where
    x1: "Inr xs \<in> set (map (\<lambda>(line_num, line). scan_line cfg path line_num line)
                      (zip [1..<Suc (length ?lines)] ?lines))" and mx: "m \<in> set xs"
    by blast
  from x1 obtain n line where
    z: "(n, line) \<in> set (zip [1..<Suc (length ?lines)] ?lines)"
    and x: "scan_line cfg path n line = Inr xs"
    by (auto simp add: image_iff split: prod.splits dest: sym simp del: upt_Suc)
  from z obtain i where i: "i < length ?lines" "n = [1..<Suc (length ?lines)] ! i" "line = ?lines ! i"
    by (auto simp add: in_set_zip)
  then have "n = Suc i" by (simp del: upt_Suc)
  then have "scan_line cfg path (Suc i) (?lines ! (Suc i - 1)) = Inr xs" using x i(3) by simp
  moreover have "1 \<le> Suc i" "Suc i \<le> length ?lines" using i(1) by simp_all
  ultimately show ?thesis using mx by blast
qed

lemma take_drop_join:
  "lo \<le> a \<Longrightarrow> a \<le> b \<Longrightarrow> take (a - lo) (drop lo l) @ take (b - a) (drop a l) = take (b - lo) (drop lo l)"
proof -
  assume h: "lo \<le> a" "a \<le> b"
  have "take ((a - lo) + (b - a)) (drop lo l)
          = take (a - lo) (drop lo l) @ take (b - a) (drop (a - lo) (drop lo l))"
    by (rule take_add)
  then show ?thesis using h by simp
qed

lemma take_drop_sublist: "\<exists>u v. l = u @ take n (drop k l) @ v"
proof -
  have "l = take k l @ take n (drop k l) @ drop n (drop k l)"
    by (simp only: append_take_drop_id)
  then show ?thesis by blast
qed

lemma window_sublist:
  assumes "a \<le> b" and "b \<le> length l"
  shows "\<exists>u v. l = u @ (py_slice l (Some i) (Some (int a)) @ span_text l (a, b)
                          @ py_slice l (Some (int b)) (Some j)) @ v"
proof -
  define lo where "lo = min (slice_bound (length l) i) a"
  define hi where "hi = max (slice_bound (length l) j) b"
  have sa: "slice_bound (length l) (int a) = a" and sb: "slice_bound (length l) (int b) = b"
    using assms by (simp_all add: slice_bound_def)
  have p1: "py_slice l (Some i) (Some (int a)) = take (a - lo) (drop lo l)"
    by (cases "slice_bound (length l) i \<le> a") (simp_all add: py_slice_def Let_def sa lo_def min_def)
  have p3: "py_slice l (Some (int b)) (Some j) = take (hi - b) (drop b l)"
    by (cases "b \<le> slice_bound (length l) j") (simp_all add: py_slice_def Let_def sb hi_def max_def)
  have "take (a - lo) (drop lo l) @ take (b - a) (drop a l) @ take (hi - b) (drop b l)
          = take (hi - lo) (drop lo l)"
  proof -
    have "lo \<le> a" "b \<le> hi" by (simp_all add: lo_def hi_def)
    have "take (a - lo) (drop lo l) @ take (b - a) (drop a l) = take (b - lo) (drop lo l)"
      by (rule take_drop_join[OF \<open>lo \<le> a\<close> assms(1)])
    moreover have "take (b - lo) (drop lo l) @ take (hi - b) (drop b l) = take (hi - lo) (drop lo l)"
      by (rule take_drop_join) (use \<open>lo \<le> a\<close> \<open>b \<le> hi\<close> assms(1) in auto)
    ultimately show ?thesis by (simp only: append_assoc[symmetric])
  qed
  then have "py_slice l (Some i) (Some (int a)) @ span_text l (a, b)
               @ py_slice l (Some (int b)) (Some j) = take (hi - lo) (drop lo l)"
    by (simp add: p1 p3 span_text_def)
  then show ?thesis using take_drop_sublist[of l "hi - lo" lo] by simp
qed

lemma scan_hit_never_masked:
  assumes nm: "\<not> is_masked_number cfg line"
    and sp: "fst sp < snd sp" "snd sp \<le> length line"
    and hit: "scan_hit cfg path n line ctype sp = Inr ys" and m: "m \<in> set ys"
  shows "\<not> is_masked m"
    and "\<not> is_masked_number cfg (context_before m @ span_text line sp @ context_after m)"
proof -
  let ?cb = "py_slice line (Some (max 0 (int (fst sp) - context_window_chars cfg))) (Some (int (fst sp)))"
  let ?ca = "py_slice line (Some (int (snd sp)))
                (Some (min (int (length line)) (int (snd sp) + context_window_chars cfg)))"
  have "\<exists>u v. line = u @ (?cb @ span_text line sp @ ?ca) @ v"
    using window_sublist[of "fst sp" "snd sp" line
        "max 0 (int (fst sp) - context_window_chars cfg)"
        "min (int (length line)) (int (snd sp) + context_window_chars cfg)"] sp
    by simp
  then obtain u v where uv: "line = u @ (?cb @ span_text line sp @ ?ca) @ v" by blast
  from scan_hit_mem(6)[OF hit m] obtain x where x: "?cb = x @ context_before m" by blast
  from scan_hit_mem(7)[OF hit m] obtain y where y: "?ca = context_after m @ y" by blast
  have uv': "line = (u @ x) @ (context_before m @ span_text line sp @ context_after m) @ (y @ v)"
    using uv x y by simp
  show "\<not> is_masked m"
  proof
    assume "is_masked m"
    then have "is_masked_number cfg (?cb @ span_text line sp @ ?ca)"
      using scan_hit_mem(5)[OF hit m] by simp
    then have "exclude_masked_patterns cfg" "matches_masked_pattern (?cb @ span_text line sp @ ?ca)"
      by (auto simp add: is_masked_number_def split: if_splits)
    then have "is_masked_number cfg line"
      using matches_masked_pattern_sublist[of "?cb @ span_text line sp @ ?ca" u v] uv
      by (simp add: is_masked_number_def)
    with nm show False by simp
  qed
  show "\<not> is_masked_number cfg (context_before m @ span_text line sp @ context_after m)"
  proof
    assume a: "is_masked_number cfg (context_before m @ span_text line sp @ context_after m)"
    then have "exclude_masked_patterns cfg"
      "matches_masked_pattern (context_before m @ span_text line sp @ context_after m)"
      by (auto simp add: is_masked_number_def split: if_splits)
    then have "is_masked_number cfg line"
      using matches_masked_pattern_sublist[of
          "context_before m @ span_text line sp @ context_after m" "u @ x" "y @ v"] uv'
      by (simp add: is_masked_number_def)
    with nm show False by simp
  qed
qed


section \<open>Properties of the report generator\<close>


lemma expand_user_slash: "expand_template ''/Users/<user>/'' = Inr ''/Users/<user>/''"
  by code_simp

lemma expand_user_bslash_raw:
  "expand_template ([bslash, bslash] @ ''Users'' @ [bslash, bslash] @ ''<user>'' @ [bslash, bslash])
     = Inr ([bslash] @ ''Users'' @ [bslash] @ ''<user>'' @ [bslash])"
  by code_simp

lemma expand_c_user_bslash_raw:
  "expand_template (''C:'' @ [bslash, bslash] @ ''Users'' @ [bslash, bslash] @ ''<user>'' @ [bslash, bslash])
     = Inr (''C:'' @ [bslash] @ ''Users'' @ [bslash] @ ''<user>'' @ [bslash])"
  by code_simp

lemma expand_user_bslash_plain:
  "expand_template ([bslash] @ ''Users'' @ [bslash] @ ''<user>'' @ [bslash]) = Inl ReError"
  by code_simp

lemma expand_email: "expand_template ''<email>'' = Inr ''<email>''"
  by code_simp

lemma expand_ssn: "expand_template ''<ssn>'' = Inr ''<ssn>''"
  by code_simp

lemma sanitize_file_path_eq:
  "sanitize_file_path path =
     Inr (re_sub c_users_bslash_rx (''C:'' @ [bslash] @ ''Users'' @ [bslash] @ ''<user>'' @ [bslash])
           (re_sub users_bslash_rx ([bslash] @ ''Users'' @ [bslash] @ ''<user>'' @ [bslash])
             (re_sub users_slash_rx ''/Users/<user>/'' path)))"
  unfolding sanitize_file_path_def py_re_sub_def
    expand_user_slash expand_user_bslash_raw expand_c_user_bslash_raw bind_err_def
  by simp

lemma audit_sanitize_file_path_raises: "audit_sanitize_file_path path = Inl ReError"
  unfolding audit_sanitize_file_path_def py_re_sub_def
    expand_user_slash expand_user_bslash_plain bind_err_def
  by simp

lemma sanitize_context_total: "\<exists>s. sanitize_context c = Inr s"
  unfolding sanitize_context_def py_re_sub_def expand_email expand_ssn bind_err_def
  by simp

lemma process_finding_shape:
  "\<exists>path before after.
     process_finding sha256 cfg m = Inr (PDict
       [(''file_path'', PStr path),
        (''line_number'', PInt (int (line_number m))),
        (''column_range'', PList [PInt (int (column_start m)), PInt (int (column_end m))]),
        (''card_type'', PStr (card_type_value (card_type m))),
        (''luhn_valid'', PBool (luhn_valid m)),
        (''confidence_score'', PNum (round3 (confidence_score m))),
        (''is_masked'', PBool (is_masked m)),
        (''context'', PDict [(''before'', PStr before), (''after'', PStr after)]),
        (''remediation_priority'', PStr (calculate_priority m)),
        (''remediation_suggestions'', PList (map PStr (get_remediation_suggestions m))),
        (''pan_data'', PDict (pan_data sha256 cfg m))])
     \<and> sanitize_file_path (file_path m) = Inr path
     \<and> sanitize_context (context_before m) = Inr before
     \<and> sanitize_context (context_after m) = Inr after"
proof -
  obtain path where p: "sanitize_file_path (file_path m) = Inr path"
    using sanitize_file_path_eq by blast
  obtain before where b: "sanitize_context (context_before m) = Inr before"
    using sanitize_context_total by blast
  obtain after where a: "sanitize_context (context_after m) = Inr after"
    using sanitize_context_total by blast
  show ?thesis
    unfolding process_finding_def p b a bind_err_def by simp
qed

lemma process_finding_pan_data:
  "\<exists>finding. process_finding sha256 cfg m = Inr (PDict finding)
     \<and> map_of finding ''pan_data'' = Some (PDict (pan_data sha256 cfg m))"
proof -
  from process_finding_shape[of sha256 cfg m] obtain path before after where
    "process_finding sha256 cfg m = Inr (PDict
       [(''file_path'', PStr path),
        (''line_number'', PInt (int (line_number m))),
        (''column_range'', PList [PInt (int (column_start m)), PInt (int (column_end m))]),
        (''card_type'', PStr (card_type_value (card_type m))),
        (''luhn_valid'', PBool (luhn_valid m)),
        (''confidence_score'', PNum (round3 (confidence_score m))),
        (''is_masked'', PBool (is_masked m)),
        (''context'', PDict [(''before'', PStr before), (''after'', PStr after)]),
        (''remediation_priority'', PStr (calculate_priority m)),
        (''remediation_suggestions'', PList (map PStr (get_remediation_suggestions m))),
        (''pan_data'', PDict (pan_data sha256 cfg m))])"
    by blast
  then show ?thesis by simp
qed

lemma process_findings_all:
  "\<exists>findings. process_findings sha256 cfg matches = Inr findings
     \<and> length findings = length matches
     \<and> (\<forall>i<length matches. process_finding sha256 cfg (matches ! i) = Inr (findings ! i))"
proof (induction matches)
  case Nil
  then show ?case by simp
next
  case (Cons m matches)
  then obtain rest where r: "process_findings sha256 cfg matches = Inr rest"
    "length rest = length matches"
    "\<forall>i<length matches. process_finding sha256 cfg (matches ! i) = Inr (rest ! i)"
    by blast
  obtain f where f: "process_finding sha256 cfg m = Inr f"
    using process_finding_pan_data[of sha256 cfg m] by blast
  have "process_findings sha256 cfg (m # matches) = Inr (f # rest)"
    by (simp add: f r(1) bind_err_def)
  moreover have "\<forall>i<length (m # matches).
      process_finding sha256 cfg ((m # matches) ! i) = Inr ((f # rest) ! i)"
    using f r(3) by (auto simp add: nth_Cons split: nat.splits)
  ultimately show ?case using r(2) by simp
qed

lemma pan_data_fields:
  "map_of (pan_data sha256 cfg m) ''masked_number'' = Some (PStr (masked_match m))"
  "map_of (pan_data sha256 cfg m) ''hash''
     = Some (if raw_match m \<noteq> [] then PStr (sha256 (raw_match m)) else PNone)"
  "map_of (pan_data sha256 cfg m) ''full_number''
     = (if allow_full_pan_retention cfg \<and> \<not> redact_pan cfg then Some (PStr (raw_match m)) else None)"
  by (simp_all add: pan_data_def)

text \<open>
  Claim C3. \<open>_process_findings\<close> returns one finding for each match, and the \<open>pan_data\<close>
  of each finding contains \<open>masked_number\<close>; its \<open>hash\<close> is the digest of the raw match
  exactly when the raw match is not empty (it is \<open>None\<close> otherwise, no digest of the empty
  string is ever taken); and it contains \<open>full_number\<close> only if
  \<open>allow_full_pan_retention\<close> is set and \<open>redact_pan\<close> is not.
\<close>

theorem process_findings_pan_data:
  "\<exists>findings. process_findings sha256 cfg matches = Inr findings
     \<and> length findings = length matches
     \<and> (\<forall>i<length matches. \<exists>finding pd.
           findings ! i = PDict finding
         \<and> map_of finding ''pan_data'' = Some (PDict pd)
         \<and> map_of pd ''masked_number'' = Some (PStr (masked_match (matches ! i)))
         \<and> (map_of pd ''hash'' = Some (PStr (sha256 (raw_match (matches ! i))))
               \<longleftrightarrow> raw_match (matches ! i) \<noteq> [])
         \<and> (raw_match (matches ! i) = [] \<longrightarrow> map_of pd ''hash'' = Some PNone)
         \<and> (map_of pd ''full_number'' \<noteq> None
               \<longrightarrow> allow_full_pan_retention cfg \<and> \<not> redact_pan cfg))"
proof -
  from process_findings_all[of sha256 cfg matches] obtain findings where
    fs: "process_findings sha256 cfg matches = Inr findings" "length findings = length matches"
    "\<forall>i<length matches. process_finding sha256 cfg (matches ! i) = Inr (findings ! i)"
    by blast
  have "\<exists>finding pd.
           findings ! i = PDict finding
         \<and> map_of finding ''pan_data'' = Some (PDict pd)
         \<and> map_of pd ''masked_number'' = Some (PStr (masked_match (matches ! i)))
         \<and> (map_of pd ''hash'' = Some (PStr (sha256 (raw_match (matches ! i))))
               \<longleftrightarrow> raw_match (matches ! i) \<noteq> [])
         \<and> (raw_match (matches ! i) = [] \<longrightarrow> map_of pd ''hash'' = Some PNone)
         \<and> (map_of pd ''full_number'' \<noteq> None
               \<longrightarrow> allow_full_pan_retention cfg \<and> \<not> redact_pan cfg)"
    if i: "i < length matches" for i
  proof -
    from process_finding_pan_data[of sha256 cfg "matches ! i"] obtain finding where
      f: "process_finding sha256 cfg (matches ! i) = Inr (PDict finding)"
         "map_of finding ''pan_data'' = Some (PDict (pan_data sha256 cfg (matches ! i)))"
      by blast
    have "findings ! i = PDict finding" using fs(3) i f(1) by simp
    then show ?thesis
      using f(2) by (intro exI[of _ finding] exI[of _ "pan_data sha256 cfg (matches ! i)"])
        (simp add: pan_data_fields)
  qed
  with fs show ?thesis by blast
qed


section \<open>Properties of a scan\<close>


lemma scan_text_visa_example:
  "scan_text default_config ''Credit card number: 4532015112830366'' ''test.txt'' = Inr [visa_match]"
  by code_simp

text \<open>
  Claim C8, as the code has it. The \<open>is_masked\<close> field of every match of \<open>scan_text\<close> is
  the value of \<open>is_masked_number\<close> on the window made of the context before, the
  candidate and the context after. That test is gated by \<open>exclude_masked_patterns\<close>:
  when the setting is off it is false whatever the window holds, and when it is on the
  line was skipped if a masked pattern occurs anywhere in it. So the field is false in
  every match.
\<close>

theorem scan_text_is_masked:
  assumes "scan_text cfg text path = Inr found" and "m \<in> set found"
  shows "is_masked m = is_masked_number cfg
           (context_before m
            @ span_text (split_lines text ! (line_number m - 1)) (column_start m, column_end m)
            @ context_after m)
         \<and> \<not> is_masked m"
proof -
  from scan_text_mem[OF assms] obtain n xs where
    n: "1 \<le> n" "n \<le> length (split_lines text)"
    and xs: "scan_line cfg path n (split_lines text ! (n - 1)) = Inr xs" "m \<in> set xs"
    by blast
  let ?line = "split_lines text ! (n - 1)"
  from scan_line_mem[OF xs] obtain ctype pattern sp ys where
    nm: "\<not> is_masked_number cfg ?line"
    and sp: "sp \<in> set (finditer pattern ?line)"
    and hit: "scan_hit cfg path n ?line ctype sp = Inr ys" "m \<in> set ys"
    by blast
  have span: "fst sp < snd sp" "snd sp \<le> length ?line"
    using finditer_spans[of "fst sp" "snd sp" pattern ?line] sp by simp_all
  have ln: "line_number m = n" and cs: "column_start m = fst sp" and ce: "column_end m = snd sp"
    using scan_hit_mem(2,3,4)[OF hit] by simp_all
  from scan_hit_never_masked[OF nm span hit]
  have "\<not> is_masked m"
    and "\<not> is_masked_number cfg (context_before m @ span_text ?line sp @ context_after m)"
    by simp_all
  then show ?thesis by (simp add: ln cs ce)
qed

theorem scan_text_is_masked_witness:
  "is_masked visa_match = is_masked_number default_config
           (context_before visa_match
            @ span_text (split_lines ''Credit card number: 4532015112830366''
                           ! (line_number visa_match - 1))
                (column_start visa_match, column_end visa_match)
            @ context_after visa_match)
   \<and> \<not> is_masked visa_match"
  by (rule scan_text_is_masked[OF scan_text_visa_example]) simp

text \<open>
  The claim as stated fails: with \<open>exclude_masked_patterns\<close> off, the line
  \<open>**** 4532015112830366\<close> gives a match whose \<open>is_masked\<close> is false although the
  masked patterns match its window.
\<close>

theorem is_masked_pattern_test_counterexample:
  "scan_text keep_masked_config ''**** 4532015112830366'' ''test.txt''
     = Inr [\<lparr>file_path = ''test.txt'', line_number = 1, column_start = 5, column_end = 21,
              raw_match = [], masked_match = ''************0366'', card_type = VISA,
              luhn_valid = True, confidence_score = 4 / 5,
              context_before = ''**** '', context_after = [], is_masked = False\<rparr>]
   \<and> matches_masked_pattern (''**** '' @ ''4532015112830366'' @ [])"
  by code_simp

text \<open>
  Without \<open>allow_full_pan_retention\<close> every match has an empty \<open>raw_match\<close> and no
  finding has a \<open>full_number\<close>.
\<close>

lemma scan_text_raw_match_empty:
  assumes "scan_text cfg text path = Inr found" and "m \<in> set found"
    and "\<not> allow_full_pan_retention cfg"
  shows "raw_match m = []"
proof -
  from scan_text_mem[OF assms(1,2)] obtain n xs where
    xs: "scan_line cfg path n (split_lines text ! (n - 1)) = Inr xs" "m \<in> set xs"
    by blast
  from scan_line_mem[OF xs] obtain ctype pattern sp ys where
    hit: "scan_hit cfg path n (split_lines text ! (n - 1)) ctype sp = Inr ys" "m \<in> set ys"
    by blast
  from scan_hit_mem(1)[OF hit] assms(3) show ?thesis by simp
qed

lemma process_findings_no_full_number:
  assumes "\<not> allow_full_pan_retention cfg"
    and "process_findings sha256 cfg matches = Inr findings" and "i < length matches"
  shows "\<exists>finding pd. findings ! i = PDict finding
           \<and> map_of finding ''pan_data'' = Some (PDict pd) \<and> map_of pd ''full_number'' = None"
proof -
  from process_findings_all[of sha256 cfg matches] assms(2,3)
  have "process_finding sha256 cfg (matches ! i) = Inr (findings ! i)" by auto
  with process_finding_pan_data[of sha256 cfg "matches ! i"] obtain finding where
    "findings ! i = PDict finding"
    "map_of finding ''pan_data'' = Some (PDict (pan_data sha256 cfg (matches ! i)))"
    by auto
  then show ?thesis using assms(1) by (auto simp add: pan_data_fields)
qed


subsection \<open>The report hash\<close>

lemma report_body_hash_roundtrip:
  fixes body :: pydict
  assumes "body = report_body timestamp agent_id scan_id operator matches scan_stats config_summary findings"
  shows "\<exists>report. set_report_hash body h = Inr report
           \<and> set_report_hash report [] = Inr body
           \<and> get_report_hash report = Inr (PStr h)"
  unfolding assms report_body_def set_report_hash_def get_report_hash_def
  by simp

text \<open>
  Claim C7. \<open>create_report\<close> returns a report, and the digest of the canonical JSON text
  (sorted keys) of that report with \<open>metadata.report_hash\<close> set to the empty string is
  the hash stored in \<open>metadata.report_hash\<close>.
\<close>

theorem report_hash_recomputes:
  "\<exists>report cleared.
     create_report sha256 fr cfg timestamp agent_id scan_id operator matches scan_stats config_summary
       = Inr report
     \<and> set_report_hash report [] = Inr cleared
     \<and> get_report_hash report = Inr (PStr (sha256 (json_dumps fr True (PDict cleared))))"
proof -
  obtain findings where f: "process_findings sha256 cfg matches = Inr findings"
    using process_findings_all[of sha256 cfg matches] by blast
  define body where
    "body = report_body timestamp agent_id scan_id operator matches scan_stats config_summary findings"
  from report_body_hash_roundtrip[OF body_def, of "sha256 (json_dumps fr True (PDict body))"]
  obtain report where r: "set_report_hash body (sha256 (json_dumps fr True (PDict body))) = Inr report"
    "set_report_hash report [] = Inr body"
    "get_report_hash report = Inr (PStr (sha256 (json_dumps fr True (PDict body))))"
    by blast
  have "create_report sha256 fr cfg timestamp agent_id scan_id operator matches scan_stats
          config_summary = Inr report"
    unfolding create_report_def f bind_err_def Let_def using r(1) by (simp add: body_def)
  with r(2,3) show ?thesis by blast
qed

theorem report_hash_recomputes_witness:
  "\<exists>report cleared.
     create_report example_digest example_float_text default_config ''2024-01-01T00:00:00+00:00''
         ''pci-agent-1'' ''scan-1'' ''alice'' [visa_match] [] []
       = Inr report
     \<and> set_report_hash report [] = Inr cleared
     \<and> get_report_hash report
         = Inr (PStr (example_digest (json_dumps example_float_text True (PDict cleared))))"
  by (rule report_hash_recomputes)

theorem process_findings_pan_data_witness:
  "\<exists>finding pd.
     process_findings example_digest default_config [visa_match] = Inr [PDict finding]
     \<and> map_of finding ''pan_data'' = Some (PDict pd)
     \<and> map_of pd ''masked_number'' = Some (PStr ''************0366'')
     \<and> map_of pd ''hash'' = Some PNone
     \<and> map_of pd ''full_number'' = None"
proof -
  from process_findings_pan_data[of example_digest default_config "[visa_match]"]
  obtain findings where fs: "process_findings example_digest default_config [visa_match] = Inr findings"
    "length findings = length [visa_match]"
    "\<forall>i<length [visa_match]. \<exists>finding pd.
           findings ! i = PDict finding
         \<and> map_of finding ''pan_data'' = Some (PDict pd)
         \<and> map_of pd ''masked_number'' = Some (PStr (masked_match ([visa_match] ! i)))
         \<and> (map_of pd ''hash'' = Some (PStr (example_digest (raw_match ([visa_match] ! i))))
               \<longleftrightarrow> raw_match ([visa_match] ! i) \<noteq> [])
         \<and> (raw_match ([visa_match] ! i) = [] \<longrightarrow> map_of pd ''hash'' = Some PNone)
         \<and> (map_of pd ''full_number'' \<noteq> None
               \<longrightarrow> allow_full_pan_retention default_config \<and> \<not> redact_pan default_config)"
    by blast
  from fs(3) obtain finding pd where fp:
    "findings ! 0 = PDict finding" "map_of finding ''pan_data'' = Some (PDict pd)"
    "map_of pd ''masked_number'' = Some (PStr (masked_match visa_match))"
    "raw_match visa_match = [] \<longrightarrow> map_of pd ''hash'' = Some PNone"
    "map_of pd ''full_number'' \<noteq> None
       \<longrightarrow> allow_full_pan_retention default_config \<and> \<not> redact_pan default_config"
    by force
  have "findings = [PDict finding]"
    using fs(2) fp(1) by (cases findings) auto
  with fs(1) fp show ?thesis
    by (intro exI[of _ finding] exI[of _ pd]) (simp add: visa_match_def default_config_def)
qed

text \<open>
  Claim C1. With \<open>allow_full_pan_retention\<close> off the raw digits of a card number are
  claimed to appear in no stored or serialized match. The \<open>raw_match\<close> field is empty
  and no finding has a \<open>full_number\<close> (lemmas \<open>scan_text_raw_match_empty\<close> and
  \<open>process_findings_no_full_number\<close>), but the context fields are cut from the line
  and \<open>_sanitize_context\<close> removes e-mail addresses and social security numbers only:
  when a line holds a card number twice, the second match stores all sixteen digits in
  \<open>context_before\<close>, and the finding made from it carries them in \<open>context.before\<close>.
\<close>

theorem repeated_pan_context_leak:
  "scan_text default_config ''4532015112830366 4532015112830366'' ''cards.txt''
     = Inr [\<lparr>file_path = ''cards.txt'', line_number = 1, column_start = 0, column_end = 16,
              raw_match = [], masked_match = ''************0366'', card_type = VISA,
              luhn_valid = True, confidence_score = 4 / 5,
              context_before = [], context_after = '' 4532015112830366'', is_masked = False\<rparr>,
            \<lparr>file_path = ''cards.txt'', line_number = 1, column_start = 17, column_end = 33,
              raw_match = [], masked_match = ''************0366'', card_type = VISA,
              luhn_valid = True, confidence_score = 4 / 5,
              context_before = ''4532015112830366 '', context_after = [], is_masked = False\<rparr>]
   \<and> process_findings example_digest default_config
         [\<lparr>file_path = ''cards.txt'', line_number = 1, column_start = 17, column_end = 33,
           raw_match = [], masked_match = ''************0366'', card_type = VISA,
           luhn_valid = True, confidence_score = 4 / 5,
           context_before = ''4532015112830366 '', context_after = [], is_masked = False\<rparr>]
     = Inr [PDict
       [(''file_path'', PStr ''cards.txt''), (''line_number'', PInt 1),
        (''column_range'', PList [PInt 17, PInt 33]),
        (''card_type'', PStr ''visa''), (''luhn_valid'', PBool True),
        (''confidence_score'', PNum (4 / 5)), (''is_masked'', PBool False),
        (''context'', PDict [(''before'', PStr ''4532015112830366 ''), (''after'', PStr [])]),
        (''remediation_priority'', PStr ''critical''),
        (''remediation_suggestions'',
         PList
          [PStr ''URGENT: Unmasked valid PAN detected - secure immediately'',
           PStr ''Implement PAN masking or tokenization'',
           PStr ''Review data retention policies'',
           PStr ''Ensure PCI-DSS compliance for data handling'',
           PStr ''High confidence match - verify and remediate'',
           PStr ''Consider data encryption at rest'',
           PStr ''Implement access controls and audit logging'']),
        (''pan_data'',
         PDict [(''masked_number'', PStr ''************0366''), (''hash'', PNone)])]]"
  by code_simp

text \<open>
  Claim C10. The path sanitization of both classes is claimed to be idempotent. The
  replacement templates of \<open>AuditLogger._sanitize_file_path\<close> are not raw strings, so
  the second one starts with a backslash before the letter \<open>U\<close>: \<open>re.sub\<close> raises
  \<open>bad escape\<close> on every path (lemma \<open>audit_sanitize_file_path_raises\<close>) and the method
  returns no path at all, where the method of \<open>ReportGenerator\<close> returns the sanitized
  one.
\<close>

theorem audit_sanitize_file_path_example:
  "audit_sanitize_file_path ''/Users/alice/report.txt'' = Inl ReError
   \<and> sanitize_file_path ''/Users/alice/report.txt'' = Inr ''/Users/<user>/report.txt''"
  by code_simp


section \<open>Properties of the secure client\<close>


lemma ascii_digit_is_word: "ascii_digit c \<Longrightarrow> is_word c"
  by (auto simp add: ascii_digit_def is_word_def)

lemma lower_char_digit: "ascii_digit c \<Longrightarrow> lower_char c = c"
  by (auto simp add: ascii_digit_def lower_char_def)

lemma is_word_lower_char: "is_word (lower_char c) = is_word c"
proof -
  have lt: "(of_char c :: nat) < 256" by simp
  show ?thesis
    using lt by (auto simp add: is_word_def lower_char_def Let_def)
qed

lemma advance_Suc_Cons:
  "advance (Suc j) (p, c # cs) = advance j (Some c, cs)"
  by (cases j) (simp_all add: advance_def)

lemma rep_from_Cls:
  "rep_from (ms (Cls P)) n m st =
     map (\<lambda>j. advance j st) (rev [n..<Suc (min m (length (takeWhile P (snd st))))])"
proof (induction m arbitrary: n st)
  case 0
  show ?case by (simp add: advance_def)
next
  case (Suc m)
  obtain p s where st: "st = (p, s)" by (cases st)
  show ?case
  proof (cases s)
    case Nil
    then show ?thesis using st by (simp add: advance_def)
  next
    case (Cons c cs)
    show ?thesis
    proof (cases "P c")
      case False
      then show ?thesis using st Cons by (simp add: advance_def)
    next
      case True
      let ?k = "min m (length (takeWhile P cs))"
      have step: "ms (Cls P) st = [(Some c, cs)]" using st Cons True by simp
      have ih: "rep_from (ms (Cls P)) (n - 1) m (Some c, cs)
                  = map (\<lambda>j. advance j (Some c, cs)) (rev [n - 1..<Suc ?k])"
        using Suc[of "n - 1" "(Some c, cs)"] unfolding snd_conv .
      have shift: "map (\<lambda>j. advance j (Some c, cs)) (rev [a..<b])
                     = map (\<lambda>j. advance j st) (rev [Suc a..<Suc b])" for a b
      proof -
        have "[Suc a..<Suc b] = map Suc [a..<b]" by (simp add: map_Suc_upt)
        then show ?thesis by (simp add: rev_map comp_def advance_Suc_Cons st Cons del: upt_Suc)
      qed
      have len: "min (Suc m) (length (takeWhile P (snd st))) = Suc ?k"
        using st Cons True by simp
      have unf: "rep_from (ms (Cls P)) n (Suc m) st
                  = rep_from (ms (Cls P)) (n - 1) m (Some c, cs) @ (if n = 0 then [st] else [])"
        by (simp add: step del: ms.simps)
      have body: "rep_from (ms (Cls P)) (n - 1) m (Some c, cs)
                    = map (\<lambda>j. advance j st) (rev [Suc (n - 1)..<Suc (Suc ?k)])"
        unfolding ih shift ..
      show ?thesis
      proof (cases n)
        case 0
        have "[0..<Suc (Suc ?k)] = 0 # [Suc 0..<Suc (Suc ?k)]"
          by (simp add: upt_conv_Cons del: upt_Suc)
        then have "map (\<lambda>j. advance j st) (rev [0..<Suc (Suc ?k)])
                     = map (\<lambda>j. advance j st) (rev [Suc 0..<Suc (Suc ?k)]) @ [st]"
          by (simp add: advance_def del: upt_Suc)
        then show ?thesis
          unfolding unf body len using 0 by (simp del: upt_Suc ms.simps)
      next
        case (Suc n')
        then show ?thesis
          unfolding unf body len by (simp del: upt_Suc ms.simps)
      qed
    qed
  qed
qed

lemma ms_pan_pattern:
  "ms pan_pattern st =
     (if boundary st
      then filter boundary
             (map (\<lambda>j. advance j st)
                (rev [13..<Suc (min 19 (length (takeWhile ascii_digit (snd st))))]))
      else [])"
proof -
  have f: "concat (map (ms WordB \<circ> g) xs) = filter boundary (map g xs)" for g and xs :: "nat list"
    by (induction xs) simp_all
  show ?thesis
    by (simp add: pan_pattern_def digit_def rep_from_Cls f del: upt_Suc)
qed

lemma boundary_inside_run:
  assumes "0 < j" and "j < length (takeWhile ascii_digit s)"
  shows "\<not> boundary (advance j (p, s))"
proof -
  let ?t = "takeWhile ascii_digit s"
  have s: "s = ?t @ dropWhile ascii_digit s" by simp
  have a: "ascii_digit (s ! (j - 1))" and b: "ascii_digit (s ! j)"
    using assms by (metis (no_types, lifting) less_imp_diff_less nth_mem set_takeWhileD takeWhile_nth)+
  have "drop j s \<noteq> []" using assms length_takeWhile_le[of ascii_digit s] by simp
  then have hd: "drop j s = s ! j # drop (Suc j) s"
    using assms length_takeWhile_le[of ascii_digit s]
    by (metis Cons_nth_drop_Suc drop_eq_Nil2 not_le)
  show ?thesis
    using assms(1) a b ascii_digit_is_word
    by (simp add: boundary_def advance_def hd)
qed

lemma first_match_pan_pattern_run:
  assumes "first_match pan_pattern (p, s) = Some n"
  shows "n = length (takeWhile ascii_digit s) \<and> 13 \<le> n \<and> n \<le> 19"
proof -
  let ?run = "length (takeWhile ascii_digit s)"
  let ?cands = "filter boundary (map (\<lambda>j. advance j (p, s)) (rev [13..<Suc (min 19 ?run)]))"
  from assms obtain st' rest where ms: "ms pan_pattern (p, s) = st' # rest"
    and n: "n = length s - length (snd st')"
    by (auto simp add: first_match_def split: list.splits)
  have "st' \<in> set (ms pan_pattern (p, s))" unfolding ms by simp
  then have "st' \<in> set ?cands"
    unfolding ms_pan_pattern snd_conv by (simp split: if_splits del: upt_Suc)
  then have bd: "boundary st'"
    and im: "st' \<in> set (map (\<lambda>j. advance j (p, s)) (rev [13..<Suc (min 19 ?run)]))"
    unfolding set_filter by blast+
  from im obtain j where jm: "j \<in> set (rev [13..<Suc (min 19 ?run)])"
    and stj: "st' = advance j (p, s)"
    unfolding set_map by blast
  have j1: "13 \<le> j" and j2: "j \<le> 19" and j3: "j \<le> ?run"
    using jm by (auto simp del: upt_Suc)
  note j = j1 j2 stj bd j3
  have "\<not> j < ?run"
  proof
    assume "j < ?run"
    moreover have "0 < j" using j1 by simp
    ultimately have "\<not> boundary (advance j (p, s))" by (rule boundary_inside_run[rotated])
    then show False using bd stj by simp
  qed
  then have jr: "j = ?run" using j3 by linarith
  have "length (snd st') = length s - j" using stj by (simp add: snd_advance)
  moreover have "j \<le> length s" using jr length_takeWhile_le[of ascii_digit s] by simp
  ultimately have "n = j" using n by simp
  with jr j1 j2 show ?thesis by simp
qed

lemma first_match_pan_pattern_here:
  assumes dg: "\<forall>c\<in>set ds. ascii_digit c" and len: "13 \<le> length ds" "length ds \<le> 19"
    and after: "post = [] \<or> \<not> is_word (hd post)"
    and before: "p = None \<or> \<not> is_word (the p)"
  shows "first_match pan_pattern (p, ds @ post) = Some (length ds)"
proof -
  let ?st = "(p, ds @ post)"
  obtain d ds' where ds: "ds = d # ds'" using len by (cases ds) auto
  have "post = [] \<or> \<not> ascii_digit (hd post)" using after ascii_digit_is_word by auto
  then have tw: "takeWhile ascii_digit (ds @ post) = ds"
    using dg by (cases post) (simp_all add: takeWhile_append2)
  have b0: "boundary ?st"
    using before dg ds ascii_digit_is_word[of d] by (cases p) (auto simp add: boundary_def)
  have range: "rev [13..<Suc (min 19 (length ds))] = length ds # rev [13..<length ds]"
    using len by simp
  have adv: "advance (length ds) ?st = (Some (last ds), post)"
    using ds by (simp add: advance_def nth_append last_conv_nth)
  have "ascii_digit (last ds)" using dg ds by (metis last_in_set list.distinct(1))
  then have bl: "boundary (Some (last ds), post)"
    using after ascii_digit_is_word[of "last ds"] by (cases post) (auto simp add: boundary_def)
  have "ms pan_pattern ?st
          = (Some (last ds), post)
              # filter boundary (map (\<lambda>j. advance j ?st) (rev [13..<length ds]))"
    unfolding ms_pan_pattern snd_conv tw range using b0 bl adv by simp
  then show ?thesis by (simp add: first_match_def)
qed

lemma finditer_from_first_match:
  "(a, b) \<in> set (finditer_from r pos p s) \<Longrightarrow>
     pos \<le> a \<and> a < b \<and> (\<exists>p'. first_match r (p', drop (a - pos) s) = Some (b - a))"
proof (induction r pos p s rule: finditer_from.induct)
  case (1 r pos p)
  then show ?case by simp
next
  case (2 r pos p c cs)
  show ?case
  proof (cases "first_match r (p, c # cs)")
    case None
    from "2.IH"(1)[OF None] "2.prems" None
    have "Suc pos \<le> a \<and> a < b \<and> (\<exists>p'. first_match r (p', drop (a - Suc pos) cs) = Some (b - a))"
      by simp
    moreover have "drop (a - Suc pos) cs = drop (a - pos) (c # cs)" if "Suc pos \<le> a"
    proof -
      have "a - pos = Suc (a - Suc pos)" using that by simp
      then show ?thesis by simp
    qed
    ultimately show ?thesis by auto
  next
    case (Some n)
    show ?thesis
    proof (cases "n = 0")
      case True
      from "2.IH"(2)[OF Some True] "2.prems" Some True
      have "Suc pos \<le> a \<and> a < b \<and> (\<exists>p'. first_match r (p', drop (a - Suc pos) cs) = Some (b - a))"
        by simp
      moreover have "drop (a - Suc pos) cs = drop (a - pos) (c # cs)" if "Suc pos \<le> a"
      proof -
        have "a - pos = Suc (a - Suc pos)" using that by simp
        then show ?thesis by simp
      qed
      ultimately show ?thesis by auto
    next
      case False
      from "2.prems" Some False
      consider "(a, b) = (pos, pos + n)"
        | "(a, b) \<in> set (finditer_from r (pos + n) (Some ((c # cs) ! (n - 1))) (drop n (c # cs)))"
        by auto
      then show ?thesis
      proof cases
        case 1
        then show ?thesis using Some False by auto
      next
        case 2
        from "2.IH"(3)[OF Some False 2]
        have ih: "pos + n \<le> a \<and> a < b
          \<and> (\<exists>p'. first_match r (p', drop (a - (pos + n)) (drop n (c # cs))) = Some (b - a))" .
        have "a - (pos + n) + n = a - pos" using ih by simp
        then have eq: "drop (a - (pos + n)) (drop n (c # cs)) = drop (a - pos) (c # cs)"
          by (simp only: drop_drop)
        show ?thesis using ih unfolding eq by auto
      qed
    qed
  qed
qed

lemma findall_pan_pattern_digits:
  assumes "pan \<in> set (findall pan_pattern s)"
  shows "\<forall>c\<in>set pan. ascii_digit c"
proof -
  from assms obtain a b where ab: "(a, b) \<in> set (finditer pan_pattern s)"
    and pan: "pan = span_text s (a, b)"
    by (auto simp add: findall_def)
  from finditer_from_first_match[OF ab[unfolded finditer_def]] obtain p' where
    "first_match pan_pattern (p', drop a s) = Some (b - a)" by auto
  from first_match_pan_pattern_run[OF this]
  have "b - a = length (takeWhile ascii_digit (drop a s))" by simp
  then have "pan = takeWhile ascii_digit (drop a s)"
    unfolding pan span_text_def fst_conv snd_conv
    by (metis append_eq_conv_conj takeWhile_dropWhile_id)
  then show ?thesis using set_takeWhileD by metis
qed

lemma ints_of_digits:
  "\<forall>c\<in>set s. ascii_digit c \<Longrightarrow> ints_of s = Inr (digit_values s)"
  by (induction s) (simp_all add: digit_values_def int_of_char_def bind_err_def)

lemma pan_is_sensitive_total:
  "\<forall>c\<in>set pan. ascii_digit c \<Longrightarrow> \<exists>b. pan_is_sensitive pan = Inr b"
  by (auto simp add: pan_is_sensitive_def ints_of_digits bind_err_def)

lemma any_sensitive_hit:
  assumes "\<forall>pan\<in>set pans. \<forall>c\<in>set pan. ascii_digit c"
    and "ds \<in> set pans" and "pan_is_sensitive ds = Inr True"
  shows "any_sensitive pans = Inr True"
  using assms
proof (induction pans)
  case Nil
  then show ?case by simp
next
  case (Cons pan pans)
  obtain b where b: "pan_is_sensitive pan = Inr b"
    using pan_is_sensitive_total[of pan] Cons.prems(1) by auto
  show ?case
  proof (cases b)
    case True
    then show ?thesis by (simp add: b bind_err_def)
  next
    case False
    then have "ds \<noteq> pan" using b Cons.prems(3) by auto
    then have "any_sensitive pans = Inr True" using Cons by auto
    then show ?thesis using False by (simp add: b bind_err_def)
  qed
qed

lemma finditer_from_reaches:
  assumes dg: "\<forall>c\<in>set ds. ascii_digit c" and len: "13 \<le> length ds" "length ds \<le> 19"
    and after: "post = [] \<or> \<not> is_word (hd post)"
  shows "(if pre = [] then p = None \<or> \<not> is_word (the p) else \<not> is_word (last pre)) \<Longrightarrow>
         (pos + length pre, pos + length pre + length ds)
           \<in> set (finditer_from pan_pattern pos p (pre @ ds @ post))"
proof (induction pre arbitrary: pos p rule: length_induct)
  case (1 pre)
  show ?case
  proof (cases pre)
    case Nil
    obtain d ds' where ds: "ds = d # ds'" using len by (cases ds) auto
    have "first_match pan_pattern (p, ds @ post) = Some (length ds)"
      using first_match_pan_pattern_here[OF dg len after] "1.prems" Nil by simp
    then show ?thesis using Nil ds by simp
  next
    case (Cons c pre')
    let ?s = "pre @ ds @ post"
    have lastnw: "\<not> is_word (last pre)" using "1.prems" Cons by simp
    have rec1: "(Suc pos + length pre', Suc pos + length pre' + length ds)
                  \<in> set (finditer_from pan_pattern (Suc pos) (Some c) (pre' @ ds @ post))"
    proof -
      have "if pre' = [] then Some c = None \<or> \<not> is_word (the (Some c)) else \<not> is_word (last pre')"
        using lastnw Cons by auto
      moreover have "length pre' < length pre" using Cons by simp
      ultimately show ?thesis using "1.IH" by blast
    qed
    show ?thesis
    proof (cases "first_match pan_pattern (p, ?s)")
      case None
      then show ?thesis using rec1 Cons by simp
    next
      case (Some n)
      show ?thesis
      proof (cases "n = 0")
        case True
        then show ?thesis using rec1 Cons Some by simp
      next
        case False
        from first_match_pan_pattern_run[OF Some]
        have n: "n = length (takeWhile ascii_digit ?s)" by simp
        have "\<not> ascii_digit (last pre)" using lastnw ascii_digit_is_word by auto
        moreover have "last pre \<in> set pre" using Cons by simp
        ultimately have tw: "takeWhile ascii_digit ?s = takeWhile ascii_digit pre"
          by (metis takeWhile_append1)
        have "dropWhile ascii_digit pre \<noteq> []"
          using \<open>\<not> ascii_digit (last pre)\<close> \<open>last pre \<in> set pre\<close>
          by (auto simp add: dropWhile_eq_Nil_conv)
        moreover have "length (takeWhile ascii_digit pre) + length (dropWhile ascii_digit pre)
                         = length pre"
          by (simp only: length_append[symmetric] takeWhile_dropWhile_id)
        ultimately have "length (takeWhile ascii_digit pre) < length pre"
          by (cases "dropWhile ascii_digit pre") auto
        then have nl: "n < length pre" using n tw by simp
        let ?pre2 = "drop n pre"
        have pre2: "?pre2 \<noteq> []" "last ?pre2 = last pre" "length ?pre2 < length pre"
          using nl False by simp_all
        have dr: "drop n ?s = ?pre2 @ ds @ post" using nl by simp
        have "(pos + n + length ?pre2, pos + n + length ?pre2 + length ds)
                \<in> set (finditer_from pan_pattern (pos + n) (Some (?s ! (n - 1))) (?pre2 @ ds @ post))"
        proof -
          have "if ?pre2 = [] then Some (?s ! (n - 1)) = None \<or> \<not> is_word (the (Some (?s ! (n - 1))))
                else \<not> is_word (last ?pre2)"
            using pre2 lastnw by simp
          then show ?thesis using "1.IH" pre2(3) by blast
        qed
        moreover have "pos + n + length ?pre2 = pos + length pre" using nl by simp
        ultimately have "(pos + length pre, pos + length pre + length ds)
           \<in> set (finditer_from pan_pattern (pos + n) (Some (?s ! (n - 1))) (drop n ?s))"
          using dr by simp
        then show ?thesis using Some False Cons by simp
      qed
    qed
  qed
qed

lemma findall_pan_pattern_finds:
  assumes "\<forall>c\<in>set ds. ascii_digit c" and "13 \<le> length ds" "length ds \<le> 19"
    and "post = [] \<or> \<not> is_word (hd post)" and "pre = [] \<or> \<not> is_word (last pre)"
  shows "ds \<in> set (findall pan_pattern (pre @ ds @ post))"
proof -
  have "(0 + length pre, 0 + length pre + length ds)
          \<in> set (finditer_from pan_pattern 0 None (pre @ ds @ post))"
    by (rule finditer_from_reaches[OF assms(1-4)]) (use assms(5) in auto)
  then have "span_text (pre @ ds @ post) (length pre, length pre + length ds)
               \<in> set (findall pan_pattern (pre @ ds @ post))"
    by (auto simp add: findall_def finditer_def)
  then show ?thesis by (simp add: span_text_def)
qed



lemma lower_digits: "\<forall>c\<in>set ds. ascii_digit c \<Longrightarrow> lower ds = ds"
  by (induction ds) (simp_all add: lower_def lower_char_digit)

lemma pan_is_sensitive_luhn:
  assumes dg: "\<forall>c\<in>set ds. ascii_digit c" and len: "13 \<le> length ds"
    and luhn: "luhn_check ds = Inr True"
    and nt: "\<not> startswith ds ''201''" "\<not> startswith ds ''202''"
  shows "pan_is_sensitive ds = Inr True"
proof -
  have pl: "plain_digits ds" using dg by (simp add: plain_digits_def list_all_iff)
  have dv: "digits_of ds = Inr (digit_values ds)" by (rule digits_of_plain[OF pl])
  have "luhn_loop (length (digit_values ds) mod 2) 0 0 (digit_values ds) mod 10 = 0"
    using luhn unfolding luhn_check_def dv by (simp split: if_splits)
  then show ?thesis
    using len nt by (simp add: pan_is_sensitive_def ints_of_digits[OF dg] bind_err_def)
qed

lemma contains_sensitive_data_hit:
  assumes js: "json_dumps fr False (PDict report) = pre @ ds @ post"
    and dg: "\<forall>c\<in>set ds. ascii_digit c" and len: "13 \<le> length ds" "length ds \<le> 19"
    and luhn: "luhn_check ds = Inr True"
    and nt: "\<not> startswith ds ''201''" "\<not> startswith ds ''202''"
    and bare: "pre = [] \<or> \<not> is_word (last pre)" "post = [] \<or> \<not> is_word (hd post)"
  shows "contains_sensitive_data fr report = Inr True"
proof -
  let ?s = "lower (json_dumps fr False (PDict report))"
  have s: "?s = lower pre @ ds @ lower post"
    unfolding js using lower_digits[OF dg] by (simp add: lower_def)
  have b1: "lower pre = [] \<or> \<not> is_word (last (lower pre))"
    using bare(1) by (cases "pre = []") (simp_all add: lower_def last_map is_word_lower_char)
  have b2: "lower post = [] \<or> \<not> is_word (hd (lower post))"
    using bare(2) by (cases post) (simp_all add: lower_def is_word_lower_char)
  have mem: "ds \<in> set (findall pan_pattern ?s)"
    unfolding s by (rule findall_pan_pattern_finds[OF dg len b2 b1])
  have all: "\<forall>pan\<in>set (findall pan_pattern ?s). \<forall>c\<in>set pan. ascii_digit c"
    using findall_pan_pattern_digits by blast
  show ?thesis
    unfolding contains_sensitive_data_def
    by (rule any_sensitive_hit[OF all mem pan_is_sensitive_luhn[OF dg len(1) luhn nt]])
qed

text \<open>
  Claim C2, as the code has it. When the JSON text of a report contains a run of 13 to 19
  decimal digits that passes the Luhn check, has no word character next to it on either
  side and does not begin with 201 or 202, \<open>send_report\<close> returns false and hands nothing
  to \<open>_make_request\<close>. No exception reaches the caller: the refusal is the return value
  and a log line.
\<close>

theorem send_report_refuses_sensitive:
  assumes "json_dumps fr False (PDict report) = pre @ ds @ post"
    and "\<forall>c\<in>set ds. ascii_digit c" and "13 \<le> length ds" and "length ds \<le> 19"
    and "luhn_check ds = Inr True"
    and "\<not> startswith ds ''201''" and "\<not> startswith ds ''202''"
    and "pre = [] \<or> \<not> is_word (last pre)" and "post = [] \<or> \<not> is_word (hd post)"
  shows "send_report fr iso_date make_request report = (False, [])"
proof -
  have c: "contains_sensitive_data fr report = Inr True"
    by (rule contains_sensitive_data_hit[OF assms])
  have v: "validate_report fr report = Inr False \<or> (\<exists>e. validate_report fr report = Inl e)"
    unfolding validate_report_def c bind_err_def
    by (simp split: sum.splits)
  show ?thesis
  proof (cases "scan_id_of report")
    case (Inl e)
    then show ?thesis by (simp add: send_report_def bind_err_def)
  next
    case (Inr sid)
    from v show ?thesis
    proof
      assume "validate_report fr report = Inr False"
      then show ?thesis by (simp add: send_report_def bind_err_def Inr)
    next
      assume "\<exists>e. validate_report fr report = Inl e"
      then obtain e where "validate_report fr report = Inl e" by blast
      then show ?thesis by (simp add: send_report_def bind_err_def Inr)
    qed
  qed
qed

lemma card_run_report_json:
  "take 16 (drop 339 (json_dumps example_float_text False (PDict card_run_report)))
     = ''4532015112830366''
   \<and> last (take 339 (json_dumps example_float_text False (PDict card_run_report))) = CHR 0x22
   \<and> hd (drop 16 (drop 339 (json_dumps example_float_text False (PDict card_run_report))))
       = CHR '' ''"
  by code_simp

lemma luhn_check_visa_example: "luhn_check ''4532015112830366'' = Inr True"
  by code_simp

theorem send_report_refuses_sensitive_witness:
  "send_report example_float_text example_iso_date accepting_server card_run_report = (False, [])"
proof -
  let ?j = "json_dumps example_float_text False (PDict card_run_report)"
  have ds: "take 16 (drop 339 ?j) = ''4532015112830366''"
    and l: "last (take 339 ?j) = CHR 0x22" and h: "hd (drop 16 (drop 339 ?j)) = CHR '' ''"
    using card_run_report_json by simp_all
  have split: "?j = take 339 ?j @ take 16 (drop 339 ?j) @ drop 16 (drop 339 ?j)"
    by (simp only: append_take_drop_id)
  show ?thesis
  proof (rule send_report_refuses_sensitive[OF split])
    show "\<forall>c\<in>set (take 16 (drop 339 ?j)). ascii_digit c"
      unfolding ds by (simp add: ascii_digit_def)
    show "13 \<le> length (take 16 (drop 339 ?j))" unfolding ds by simp
    show "length (take 16 (drop 339 ?j)) \<le> 19" unfolding ds by simp
    show "luhn_check (take 16 (drop 339 ?j)) = Inr True"
      unfolding ds by (rule luhn_check_visa_example)
    show "\<not> startswith (take 16 (drop 339 ?j)) ''201''"
      unfolding ds by (simp add: startswith_def)
    show "\<not> startswith (take 16 (drop 339 ?j)) ''202''"
      unfolding ds by (simp add: startswith_def)
    show "take 339 ?j = [] \<or> \<not> is_word (last (take 339 ?j))"
      unfolding l by (simp add: is_word_def)
    show "drop 16 (drop 339 ?j) = [] \<or> \<not> is_word (hd (drop 16 (drop 339 ?j)))"
      unfolding h by (simp add: is_word_def)
  qed
qed

text \<open>
  The claim as stated fails: the digit run 2021000000000001 passes the Luhn check and
  stands alone in the JSON text of the report, but numbers that begin with 201 or 202 are
  passed over, the report is valid and its wire shape is handed to \<open>_make_request\<close>.
\<close>

theorem send_report_dated_run_counterexample:
  "findall pan_pattern (lower (json_dumps example_float_text False (PDict dated_run_report)))
     = [''2021000000000001'']
   \<and> luhn_check ''2021000000000001'' = Inr True
   \<and> validate_report example_float_text dated_run_report = Inr True
   \<and> send_report example_float_text example_iso_date accepting_server dated_run_report
     = (True,
        [PDict
          [(''agent_id'', PStr ''pci-agent-1''), (''operator'', PStr ''alice''),
           (''scan_date'', PStr ''2024-01-01''),
           (''directories_scanned'', PList [PStr ''directory_1'']),
           (''total_files_scanned'', PInt 1),
           (''findings'',
            PList
             [PDict
               [(''file_path'', PStr ''orders.txt''),
                (''context'',
                 PDict [(''before'', PStr ''ref 2021000000000001 card ''), (''after'', PStr [])]),
                (''pan_data'',
                 PDict [(''masked_number'', PStr ''************0366''), (''hash'', PNone)])]]),
           (''scan_configuration'',
            PDict
             [(''exclude_patterns_count'', PInt 0),
              (''detect_plain_pan_enabled'', PBool False),
              (''action_policy'', PStr ''report_only''),
              (''max_file_size_mb'', PInt 10), (''concurrency'', PInt 4),
              (''privacy_settings'', PDict [])]),
           (''scan_results_summary'',
            PDict
             [(''total_files_skipped'', PInt 0),
              (''total_directories_scanned'', PInt 0),
              (''total_matches_found'', PInt 0), (''errors_encountered'', PInt 0),
              (''scan_duration_seconds'', PInt 0),
              (''findings_by_type'', PDict []), (''risk_assessment'', PDict [])]),
           (''metadata'',
            PDict
             [(''scan_id'', PStr ''scan-1''),
              (''timestamp'', PStr ''2024-01-01T00:00:00+00:00''),
              (''report_version'', PStr ''1.0''),
              (''report_hash'', PStr ''abc'')]),
           (''compliance_notes'', PDict [])]])"
  by code_simp

section \<open>The two passes of the file scanner\<close>

lemma count_directory_events:
  assumes "\<forall>e\<in>set (progress_events s). event_field e ''phase'' = Some (PStr ''counting'')"
  shows "\<forall>e\<in>set (progress_events (snd (count_directory cfg has_callback stop_seen steps s))).
           event_field e ''phase'' = Some (PStr ''counting'')"
  using assms
proof (induction cfg has_callback stop_seen steps s rule: count_directory.induct)
  case (1 cfg has_callback stop_seen s)
  then show ?case by simp
next
  case (2 cfg has_callback stop_seen path steps s)
  let ?found = "all_files s @ [path]"
  let ?s1 = "s\<lparr>all_files := ?found,
                  progress_events :=
                    (if length ?found mod 1000 = 0 \<and> has_callback
                     then progress_events s
                            @ [counting_event (''Found '' @ show_nat (length ?found) @ '' files...'')
                                 (length ?found)]
                     else progress_events s),
                  flag_reads := Suc (flag_reads s)\<rparr>"
  have inv: "\<forall>e\<in>set (progress_events ?s1). event_field e ''phase'' = Some (PStr ''counting'')"
    using "2.prems" by (auto simp add: event_field_def counting_event_def)
  show ?case
  proof (cases "stop_seen (flag_reads s)")
    case True
    then show ?thesis using inv by (simp add: Let_def)
  next
    case False
    show ?thesis
    proof (cases "reaches (int (length ?found)) (max_files cfg)")
      case True
      then show ?thesis using inv False by (simp add: Let_def)
    next
      case r: False
      have "\<forall>e\<in>set (progress_events (snd (count_directory cfg has_callback stop_seen steps ?s1))).
              event_field e ''phase'' = Some (PStr ''counting'')"
        by (rule "2.IH"[OF refl refl False r inv])
      then show ?thesis using False r by (simp add: Let_def)
    qed
  qed
qed simp_all

lemma count_files_events:
  assumes "\<forall>e\<in>set (progress_events s). event_field e ''phase'' = Some (PStr ''counting'')"
  shows "\<forall>e\<in>set (progress_events (snd (count_files fnm cfg has_callback stop_seen directories s))).
           event_field e ''phase'' = Some (PStr ''counting'')"
  using assms
proof (induction directories arbitrary: s)
  case Nil
  then show ?case by simp
next
  case (Cons directory directories)
  let ?r = "count_directory cfg has_callback stop_seen
             (walk_directory fnm cfg (files_scanned (stats s)) directory 0) s"
  have inv: "\<forall>e\<in>set (progress_events (snd ?r)). event_field e ''phase'' = Some (PStr ''counting'')"
    by (rule count_directory_events[OF Cons.prems])
  show ?case
  proof (cases ?r)
    case (Pair stopped s1)
    show ?thesis
    proof (cases stopped)
      case True
      then show ?thesis using inv Pair by simp
    next
      case False
      have "\<forall>e\<in>set (progress_events s1). event_field e ''phase'' = Some (PStr ''counting'')"
        using inv Pair by simp
      from Cons.IH[OF this] show ?thesis using Pair False by simp
    qed
  qed
qed

lemma scan_loop_stopped:
  assumes "stop_seen (flag_reads2 s)"
  shows "all_matches (scan_loop has_callback stop_seen scan_file pick files s) = all_matches s
       \<and> files_completed (scan_loop has_callback stop_seen scan_file pick files s) = files_completed s
       \<and> events2 (scan_loop has_callback stop_seen scan_file pick files s) = events2 s
       \<and> submitted (scan_loop has_callback stop_seen scan_file pick files s) = submitted s"
  by (subst (1 2 3 4) scan_loop.simps) (simp add: assms)


text \<open>
  Claim C6, as the code has it. If \<open>stop_requested\<close> is found set at one of the readings
  of the counting pass, or is set when the scanning loop reads it first,
  \<open>scan_directories\<close> returns the empty list. In the first case, and when no file was
  found, it returns at once: the callback has received counting events only and no file
  has been handed to the pool. Otherwise the first files have already been handed to the
  pool, and the events end with the one that opens the scanning pass and the completion
  event, which says \<open>completed\<close> with no file scanned and has no \<open>status\<close> field: that
  the scan was stopped is written to the log only.
\<close>

theorem scan_directories_stop_before_scanning:
  assumes c: "count_files fnm cfg has_callback stop_seen directories
                \<lparr>all_files = [],
                 progress_events =
                   (if has_callback then [counting_event ''Counting files...'' 0] else []),
                 flag_reads = 0,
                 stats = stats0\<rparr> = (stopped, s1)"
    and stop: "stopped \<or> stop_seen (flag_reads s1)"
    and pool: "stopped \<or> all_files s1 = [] \<or> 0 < concurrency cfg"
  shows "\<exists>out.
      scan_directories fnm cfg has_callback stop_seen scan_file pick stats0 directories = Inr out
    \<and> returned out = []
    \<and> enumerated out = all_files s1
    \<and> (\<forall>e\<in>set (progress_events s1). event_field e ''phase'' = Some (PStr ''counting''))
    \<and> (if stopped \<or> all_files s1 = []
        then callback_events out = progress_events s1 \<and> handed_to_pool out = []
        else callback_events out
               = progress_events s1
                   @ (if has_callback
                      then [scanning_start_event (length (all_files s1)),
                            complete_event 0 (length (all_files s1)) 0]
                      else [])
           \<and> handed_to_pool out
               = take (min (nat (concurrency cfg * 2)) (length (all_files s1))) (all_files s1))
    \<and> event_field (complete_event 0 (length (all_files s1)) 0) ''completed'' = Some (PBool True)
    \<and> event_field (complete_event 0 (length (all_files s1)) 0) ''status'' = None"
proof -
  let ?s0 = "\<lparr>all_files = [],
               progress_events =
                 (if has_callback then [counting_event ''Counting files...'' 0] else []),
               flag_reads = 0,
               stats = stats0\<rparr>"
  have "\<forall>e\<in>set (progress_events ?s0). event_field e ''phase'' = Some (PStr ''counting'')"
    by (simp add: event_field_def counting_event_def)
  from count_files_events[OF this, of fnm cfg has_callback stop_seen directories]
  have inv: "\<forall>e\<in>set (progress_events s1). event_field e ''phase'' = Some (PStr ''counting'')"
    unfolding c by simp
  have ev: "event_field (complete_event 0 (length (all_files s1)) 0) ''completed'' = Some (PBool True)"
    "event_field (complete_event 0 (length (all_files s1)) 0) ''status'' = None"
    by (simp_all add: event_field_def complete_event_def)
  show ?thesis
  proof (cases "stopped \<or> all_files s1 = []")
    case True
    have "scan_directories fnm cfg has_callback stop_seen scan_file pick stats0 directories
            = Inr \<lparr>returned = [], callback_events = progress_events s1,
                    enumerated = all_files s1, handed_to_pool = []\<rparr>"
      unfolding scan_directories_def Let_def c using True
      by (cases stopped) simp_all
    then show ?thesis using inv ev True by simp
  next
    case False
    then have ns: "\<not> stopped" and ne: "all_files s1 \<noteq> []" by simp_all
    have seen: "stop_seen (flag_reads s1)" using stop ns by simp
    have conc: "\<not> concurrency cfg \<le> 0" using pool ns ne by simp
    let ?files = "all_files s1"
    let ?initial = "take (min (nat (concurrency cfg * 2)) (length ?files)) ?files"
    have "scan_directories fnm cfg has_callback stop_seen scan_file pick stats0 directories
            = Inr \<lparr>returned = [],
                    callback_events =
                      progress_events s1
                        @ (if has_callback
                           then [scanning_start_event (length ?files),
                                 complete_event 0 (length ?files) 0]
                           else []),
                    enumerated = ?files,
                    handed_to_pool = ?initial\<rparr>"
      unfolding scan_directories_def Let_def c using ns ne conc seen
      by (simp add: scan_loop_stopped del: scan_loop.simps)
    then show ?thesis using inv ev False by simp
  qed
qed

lemma count_files_stopped_example:
  "count_files literal_fnmatch one_file_limit True stopped_at_once two_roots
     \<lparr>all_files = [],
      progress_events = (if True then [counting_event ''Counting files...'' 0] else []),
      flag_reads = 0,
      stats = zero_stats\<rparr>
   = (True,
      \<lparr>all_files = [''/data/a/one.txt''],
       progress_events = [counting_event ''Counting files...'' 0],
       flag_reads = 1,
       stats = \<lparr>files_scanned = 0, files_skipped = 0, directories_scanned = 1,
                 matches_found = 0, errors = 0\<rparr>\<rparr>)"
  by code_simp

theorem scan_directories_stop_before_scanning_witness:
  "\<exists>out.
      scan_directories literal_fnmatch one_file_limit True stopped_at_once no_findings first_done
        zero_stats two_roots = Inr out
    \<and> returned out = []
    \<and> enumerated out = [''/data/a/one.txt'']
    \<and> callback_events out = [counting_event ''Counting files...'' 0]
    \<and> handed_to_pool out = []"
  using scan_directories_stop_before_scanning[OF count_files_stopped_example,
          of no_findings first_done]
  by auto

text \<open>
  The claim as stated fails. When the stop is found during the counting pass the last
  event is a counting event; when it is found at the start of the scanning pass the last
  event is the completion event, and it has no \<open>status\<close> field.
\<close>

theorem scan_directories_stop_counterexample:
  "scan_directories literal_fnmatch one_file_limit True stopped_at_once no_findings first_done
     zero_stats two_roots
     = Inr \<lparr>returned = [],
             callback_events =
               [PDict [(''phase'', PStr ''counting''), (''message'', PStr ''Counting files...''),
                       (''files_scanned'', PInt 0), (''total_files'', PInt 0),
                       (''matches_found'', PInt 0)]],
             enumerated = [''/data/a/one.txt''],
             handed_to_pool = []\<rparr>
   \<and> scan_directories literal_fnmatch one_file_limit True stopped_after_first_read no_findings
       first_done zero_stats [FsDir ''/data/a'' [FsFile ''/data/a/one.txt'']]
     = Inr \<lparr>returned = [],
             callback_events =
               [PDict [(''phase'', PStr ''counting''), (''message'', PStr ''Counting files...''),
                       (''files_scanned'', PInt 0), (''total_files'', PInt 0),
                       (''matches_found'', PInt 0)],
                PDict [(''phase'', PStr ''scanning''), (''message'', PStr ''Scanning files...''),
                       (''files_scanned'', PInt 0), (''total_files'', PInt 1),
                       (''matches_found'', PInt 0)],
                PDict [(''phase'', PStr ''complete''), (''files_scanned'', PInt 0),
                       (''total_files'', PInt 1), (''matches_found'', PInt 0),
                       (''current_file'', PStr ''Scan complete''), (''in_queue'', PInt 0),
                       (''percentage'', PInt 100), (''completed'', PBool True)]],
             enumerated = [''/data/a/one.txt''],
             handed_to_pool = [''/data/a/one.txt'']\<rparr>"
  by code_simp

text \<open>
  Claim C9. With \<open>max_files > 0\<close> the counting pass is claimed to materialize at most
  \<open>max_files\<close> paths. The \<open>break\<close> that respects the limit leaves the loop over one
  generator only; the loop over the roots goes on, and every further root adds its first
  file. With a limit of one file and two roots of one file each, two paths are
  materialized and both are handed to the pool.
\<close>

theorem scan_directories_exceeds_max_files:
  "max_files one_file_limit = Limit 1
   \<and> scan_directories literal_fnmatch one_file_limit False never_stopped no_findings first_done
       zero_stats two_roots
     = Inr \<lparr>returned = [], callback_events = [],
             enumerated = [''/data/a/one.txt'', ''/data/b/two.txt''],
             handed_to_pool = [''/data/a/one.txt'', ''/data/b/two.txt'']\<rparr>"
  by code_simp

end
